theory Spec2Isabelle
  imports Main "HOL-Library.AList"
begin

section \<open>JavaScript values\<close>

text \<open>
  The values that flow through the hook: primitives compare by value, objects by
  reference (\<open>Obj r\<close> is the object at reference \<open>r\<close>). Strict equality \<open>===\<close> of two
  values is HOL equality of their \<open>jsval\<close>s.
\<close>

datatype jsval = Undefined | Null | Bool bool | Num int | Str string | Obj nat

text \<open>JavaScript truthiness, as used by \<open>a && b\<close>.\<close>

fun truthy :: "jsval \<Rightarrow> bool" where
  "truthy Undefined = False"
| "truthy Null = False"
| "truthy (Bool b) = b"
| "truthy (Num n) = (n \<noteq> 0)"
| "truthy (Str s) = (s \<noteq> [])"
| "truthy (Obj r) = True"

text \<open>Reading a property of \<open>null\<close> or \<open>undefined\<close> throws a TypeError.\<close>

fun nullish :: "jsval \<Rightarrow> bool" where
  "nullish Undefined = True"
| "nullish Null = True"
| "nullish v = False"

text \<open>\<open>a && b\<close> where \<open>b\<close> is only looked at when \<open>a\<close> is truthy.\<close>

definition js_and :: "jsval \<Rightarrow> jsval \<Rightarrow> jsval" where
  "js_and a b = (if truthy a then b else a)"

text \<open>
  Whatever is delivered on an error channel. The callback is typed
  \<open>onError: (Error) => void\<close>, so it is an Error object and never \<open>null\<close>.
\<close>

datatype err = Err nat

section \<open>Sources\<close>

text \<open>What a push producer can do with the three callbacks it is handed.\<close>

datatype signal = Next jsval | Error err | Complete

text \<open>
  An rxjs-style observable, seen from \<open>subscribe\<close>: the signals it fires synchronously,
  inside its \<open>subscribe(onNext, onError, onComplete)\<close> call, before that call returns
  (a \<open>BehaviorSubject\<close> fires its current value, \<open>of(x)\<close> fires \<open>x\<close> and completes,
  \<open>throwError\<close> fires an error, a plain \<open>Subject\<close> fires nothing). What it fires later
  is an event of the environment.
\<close>

datatype observable = Observable (sync_signals: "signal list")

text \<open>
  A value passed as a source, with the properties \<open>subscribe\<close> reads from it:
  \<^item> \<open>sval\<close>: the value itself;
  \<^item> \<open>ctor\<close>: \<open>value.constructor\<close>;
  \<^item> \<open>ctor_wmelonTag\<close>: \<open>value.constructor._wmelonTag\<close>;
  \<^item> \<open>query_sync\<close>: the results a query's \<open>experimentalSubscribe\<close> delivers before it
    returns;
  \<^item> \<open>observe\<close>: \<open>Some ob\<close> when \<open>typeof value.observe === 'function'\<close>, \<open>ob\<close> being what
    \<open>value.observe()\<close> returns;
  \<^item> \<open>subscribe_method\<close>: \<open>Some ob\<close> when \<open>typeof value.subscribe === 'function'\<close>,
    the value then being the observable \<open>ob\<close>.
\<close>

record source =
  sval :: jsval
  ctor :: jsval
  ctor_wmelonTag :: jsval
  query_sync :: "jsval list"
  observe :: "observable option"
  subscribe_method :: "observable option"

section \<open>The source adapter: \<open>subscribe\<close>\<close>

datatype js_error = TypeError | NotObservableError

text \<open>
  What \<open>subscribe\<close> returns: the \<open>Unsubscribe\<close> of the attachment it made, named by the
  mechanism it attached to and the listener the producer now holds:
  \<^item> \<open>ModelChanges l\<close>: \<open>value.experimentalSubscribe(l)\<close> of a model, \<open>l\<close> taking \<open>isDeleted\<close>;
  \<^item> \<open>QueryResults l\<close>: \<open>value.experimentalSubscribe(l)\<close> of a query;
  \<^item> \<open>ObserveSubscription ob\<close>: \<open>value.observe().subscribe(...)\<close>, \<open>ob\<close> being the observer
    made of the three callbacks;
  \<^item> \<open>DirectSubscription ob\<close>: \<open>value.subscribe(...)\<close>.
\<close>

datatype 's attachment =
    ModelChanges "bool \<Rightarrow> 's \<Rightarrow> 's"
  | QueryResults "jsval \<Rightarrow> 's \<Rightarrow> 's"
  | ObserveSubscription "signal \<Rightarrow> 's \<Rightarrow> 's"
  | DirectSubscription "signal \<Rightarrow> 's \<Rightarrow> 's"

text \<open>\<open>const wmelonTag = value && value.constructor && value.constructor._wmelonTag\<close>\<close>

definition wmelonTag :: "source \<Rightarrow> jsval" where
  "wmelonTag value = js_and (sval value) (js_and (ctor value) (ctor_wmelonTag value))"

text \<open>
  \<open>value.observe\<close> and \<open>value.subscribe\<close>: a property read, which throws on \<open>null\<close> and
  \<open>undefined\<close>.
\<close>

definition get_observe :: "source \<Rightarrow> js_error + observable option" where
  "get_observe value = (if nullish (sval value) then Inl TypeError else Inr (observe value))"

definition get_subscribe :: "source \<Rightarrow> js_error + observable option" where
  "get_subscribe value =
     (if nullish (sval value) then Inl TypeError else Inr (subscribe_method value))"

text \<open>
  The callbacks are state transformers over the caller's state \<open>'s\<close>; a producer that calls
  them synchronously threads the state through them in order.
\<close>

fun fire :: "(jsval \<Rightarrow> 's \<Rightarrow> 's) \<Rightarrow> (err \<Rightarrow> 's \<Rightarrow> 's) \<Rightarrow> ('s \<Rightarrow> 's) \<Rightarrow> signal \<Rightarrow> 's \<Rightarrow> 's" where
  "fire onNext onError onComplete (Next v) = onNext v"
| "fire onNext onError onComplete (Error e) = onError e"
| "fire onNext onError onComplete Complete = onComplete"

text \<open>
  \<open>ob.subscribe(onNext, onError, onComplete)\<close> on an observable, the three callbacks
  being the observer \<open>fire onNext onError onComplete\<close>.
\<close>

definition observable_subscribe :: "observable \<Rightarrow> (signal \<Rightarrow> 's \<Rightarrow> 's) \<Rightarrow> 's \<Rightarrow> 's" where
  "observable_subscribe ob observer s = fold observer (sync_signals ob) s"

text \<open>
  The listener the model branch hands to \<open>value.experimentalSubscribe\<close>:
  \<^verbatim>\<open>(isDeleted) => { if (isDeleted) { onComplete() } else { onNext(value) } }\<close>
\<close>

definition model_listener ::
  "source \<Rightarrow> (jsval \<Rightarrow> 's \<Rightarrow> 's) \<Rightarrow> ('s \<Rightarrow> 's) \<Rightarrow> bool \<Rightarrow> 's \<Rightarrow> 's" where
  "model_listener value onNext onComplete isDeleted =
     (if isDeleted then onComplete else onNext (sval value))"

text \<open>
  Modelled from the spec: \<open>Model.experimentalSubscribe\<close> is not among the sources. The
  spec has the record branch "attach to the source's own change-notification mechanism",
  each "subsequent notification" then reaching the listener: attaching keeps the listener
  for later notifications and calls nothing before it returns.
\<close>

definition model_experimentalSubscribe ::
  "(bool \<Rightarrow> 's \<Rightarrow> 's) \<Rightarrow> 's \<Rightarrow> 's attachment \<times> 's" where
  "model_experimentalSubscribe listener s = (ModelChanges listener, s)"

text \<open>
  Modelled from the spec: \<open>Query.experimentalSubscribe\<close> is not among the sources. The
  spec has the query branch "attach directly to its native subscription mechanism,
  forwarding every emission to \<open>onNext\<close>", synchronously or not "depending on the
  underlying producer": the results that are ready at once (\<open>query_sync\<close>) reach \<open>onNext\<close>
  before it returns.
\<close>

definition query_experimentalSubscribe ::
  "source \<Rightarrow> (jsval \<Rightarrow> 's \<Rightarrow> 's) \<Rightarrow> 's \<Rightarrow> 's attachment \<times> 's" where
  "query_experimentalSubscribe value onNext s =
     (QueryResults onNext, fold onNext (query_sync value) s)"

text \<open>
  \<open>subscribe(value, onNext, onError, onComplete)\<close>. \<open>Inl (e, s)\<close>: it threw \<open>e\<close> in state
  \<open>s\<close>; \<open>Inr (u, s)\<close>: it returned the \<open>Unsubscribe\<close> \<open>u\<close> in state \<open>s\<close>.
  The \<open>console.error\<close> before the final \<open>throw\<close> is not modelled.
\<close>

definition subscribe ::
  "source \<Rightarrow> (jsval \<Rightarrow> 's \<Rightarrow> 's) \<Rightarrow> (err \<Rightarrow> 's \<Rightarrow> 's) \<Rightarrow> ('s \<Rightarrow> 's) \<Rightarrow> 's
     \<Rightarrow> (js_error \<times> 's) + ('s attachment \<times> 's)" where
  "subscribe value onNext onError onComplete s =
     (if wmelonTag value = Str ''model'' then
        Inr (model_experimentalSubscribe (model_listener value onNext onComplete)
               (onNext (sval value) s))
      else if wmelonTag value = Str ''query'' then
        Inr (query_experimentalSubscribe value onNext s)
      else
        (case get_observe value of
           Inl e \<Rightarrow> Inl (e, s)
         | Inr (Some ob) \<Rightarrow>
             Inr (ObserveSubscription (fire onNext onError onComplete),
                  observable_subscribe ob (fire onNext onError onComplete) s)
         | Inr None \<Rightarrow>
             (case get_subscribe value of
                Inl e \<Rightarrow> Inl (e, s)
              | Inr (Some ob) \<Rightarrow>
                  Inr (DirectSubscription (fire onNext onError onComplete),
                       observable_subscribe ob (fire onNext onError onComplete) s)
              | Inr None \<Rightarrow> Inl (NotObservableError, s))))"

text \<open>\<open>hasOwn(obj, key)\<close> on an object held as the list of its own properties.\<close>

definition hasOwn :: "(string \<times> 'v) list \<Rightarrow> string \<Rightarrow> bool" where
  "hasOwn obj key = (key \<in> set (map fst obj))"

text \<open>
  Callbacks that only record that they were called: running \<open>subscribe\<close> with them on the
  empty log gives the calls \<open>subscribe\<close> made before it returned or threw, in order.
\<close>

datatype call = CalledNext jsval | CalledError err | CalledComplete

definition logNext :: "jsval \<Rightarrow> call list \<Rightarrow> call list" where
  "logNext v l = l @ [CalledNext v]"

definition logError :: "err \<Rightarrow> call list \<Rightarrow> call list" where
  "logError e l = l @ [CalledError e]"

definition logComplete :: "call list \<Rightarrow> call list" where
  "logComplete l = l @ [CalledComplete]"

definition subscribe_calls ::
  "source \<Rightarrow> (js_error \<times> call list) + (call list attachment \<times> call list)" where
  "subscribe_calls value = subscribe value logNext logError logComplete []"

section \<open>The state of a binding\<close>

text \<open>
  What the hook returns, \<open>UseObservablesResult\<close>: \<open>data\<close> is \<open>null\<close> (\<open>None\<close>) or the reference
  of the object that holds the combined values, \<open>error\<close> is \<open>null\<close> or the Error received.
\<close>

record combined_state =
  isLoading :: bool
  data :: "nat option"
  error :: "err option"

text \<open>
  The variables one run of the effect closes over, one record per run (a generation):
  the \<open>let\<close>s \<open>isSubscribed\<close>, \<open>subscriptions\<close> (the reference of the array the variable is
  bound to at the time), \<open>valueCount\<close>, the consts \<open>values\<close> (the reference of that object),
  \<open>keys\<close> and \<open>keyCount\<close>. \<open>attached\<close> is not a variable of the code: it lists the keys
  whose callbacks a producer holds, \<open>subscribe\<close> having returned for them.
\<close>

record generation =
  isSubscribed :: bool
  subscriptions :: nat
  "values" :: nat
  valueCount :: nat
  keys :: "string list"
  keyCount :: nat
  attached :: "string list"

text \<open>An array with its identity; \<open>Object.is\<close> on two arrays compares \<open>array_ref\<close>.\<close>

record array =
  array_ref :: nat
  elems :: "jsval list"

text \<open>
  The object \<open>getObservables\<close> returns (or the \<open>observables\<close> prop), with its identity and
  its own properties in the order of \<open>Object.keys\<close>.
\<close>

record observables =
  obj_ref :: nat
  entries :: "(string \<times> source) list"

text \<open>
  What React keeps for the hooks of one mounted component between renders:
  \<open>prevTriggerPropsRef.current\<close> (\<open>prevResetOnRef.current\<close> in \<open>WithObservables\<close>), the
  dependency and the value of the \<open>useMemo\<close>, the dependency of the \<open>useEffect\<close> (\<open>None\<close>
  as long as the effect has not run) and the cleanup its last run returned (\<open>Some g\<close>: the
  \<open>unsubscribeAll\<close> of generation \<open>g\<close>; \<open>None\<close>: \<open>undefined\<close>).
\<close>

record hook_slots =
  prevTriggerPropsRef :: array
  memo_deps :: nat
  memo :: observables
  effect_deps :: "nat option"
  cleanup :: "nat option"

text \<open>
  Everything that changes: the React state, the objects made by the code (\<open>heap\<close>, by
  reference, each the list of its own properties; \<open>next_ref\<close> is the next fresh
  reference), the arrays of \<open>Unsubscribe\<close> functions (\<open>arrays\<close>, by reference, an
  \<open>Unsubscribe\<close> being named by the key it was made for), the generations so far, the hook
  slots (\<open>None\<close> before the first render), whether the component is still mounted, and
  two logs kept for the statements below: the calls of the adapter's \<open>subscribe\<close> and the
  calls of \<open>Unsubscribe\<close> functions, each as (generation, key).
\<close>

record world =
  state :: combined_state
  heap :: "nat \<Rightarrow> (string \<times> jsval) list"
  arrays :: "nat \<Rightarrow> string list"
  next_ref :: nat
  gens :: "nat \<Rightarrow> generation"
  ngens :: nat
  hook :: "hook_slots option"
  mounted :: bool
  subscribe_log :: "(nat \<times> string) list"
  unsubscribed :: "(nat \<times> string) list"

text \<open>The three kinds of state the code passes to \<open>setState\<close>.\<close>

definition Loading :: combined_state where
  "Loading = \<lparr>isLoading = True, data = None, error = None\<rparr>"

definition Ready :: "nat \<Rightarrow> combined_state" where
  "Ready d = \<lparr>isLoading = False, data = Some d, error = None\<rparr>"

definition Errored :: "err \<Rightarrow> combined_state" where
  "Errored e = \<lparr>isLoading = False, data = None, error = Some e\<rparr>"

text \<open>
  Before the first render: the initial value of \<open>useState\<close>, no object, no generation, no
  hook slot yet.
\<close>

definition init_world :: world where
  "init_world = \<lparr>state = Loading, heap = (\<lambda>r. []), arrays = (\<lambda>r. []), next_ref = 0,
     gens = (\<lambda>g. \<lparr>isSubscribed = False, subscriptions = 0, values = 0, valueCount = 0,
                   keys = [], keyCount = 0, attached = []\<rparr>),
     ngens = 0, hook = None, mounted = True, subscribe_log = [], unsubscribed = []\<rparr>"

text \<open>
  \<open>setState(st)\<close>: \<open>st\<close> is what the next render returns. Of the calls made during one
  event the last one stands. A call made after the component was unmounted is recorded
  all the same, so that nothing below rests on React ignoring it.
\<close>

definition setState :: "combined_state \<Rightarrow> world \<Rightarrow> world" where
  "setState st w = w\<lparr>state := st\<rparr>"

text \<open>An object literal or a spread \<open>{ ...obj }\<close>: a new object with the given properties.\<close>

definition alloc :: "(string \<times> jsval) list \<Rightarrow> world \<Rightarrow> nat \<times> world" where
  "alloc obj w = (next_ref w, w\<lparr>heap := (heap w)(next_ref w := obj), next_ref := Suc (next_ref w)\<rparr>)"

text \<open>
  \<open>obj[key] = value\<close> on an object made by \<open>{}\<close>: the own property \<open>key\<close> is set, or added
  after the others. Not so for the key \<open>__proto__\<close>: the assignment goes to the setter
  inherited from \<open>Object.prototype\<close> and makes no own property.
\<close>

definition assign :: "string \<Rightarrow> 'v \<Rightarrow> (string \<times> 'v) list \<Rightarrow> (string \<times> 'v) list" where
  "assign key value obj = (if key = ''__proto__'' then obj else AList.update key value obj)"

text \<open>\<open>[]\<close> for \<open>subscriptions\<close>: a new array of \<open>Unsubscribe\<close> functions.\<close>

definition alloc_array :: "string list \<Rightarrow> world \<Rightarrow> nat \<times> world" where
  "alloc_array xs w =
     (next_ref w, w\<lparr>arrays := (arrays w)(next_ref w := xs), next_ref := Suc (next_ref w)\<rparr>)"

text \<open>
  A new array of values (\<open>[]\<close> or the result of \<open>map\<close>) in \<open>getTriggeringProps\<close>; it is
  never written to.
\<close>

definition new_array :: "jsval list \<Rightarrow> world \<Rightarrow> array \<times> world" where
  "new_array xs w = (\<lparr>array_ref = next_ref w, elems = xs\<rparr>, w\<lparr>next_ref := Suc (next_ref w)\<rparr>)"

section \<open>The effect of \<open>useObservables\<close> and \<open>WithObservables\<close>\<close>

text \<open>
  \<^verbatim>\<open>const unsubscribeAll = () => {
    isSubscribed = false
    subscriptions.forEach((unsub) => unsub())
    subscriptions = []
  }\<close>
  The calls of the \<open>Unsubscribe\<close>s in the array are recorded in \<open>unsubscribed\<close>. The last
  line binds the variable to a new array; the old array is left as it is.
\<close>

definition unsubscribeAll :: "nat \<Rightarrow> world \<Rightarrow> world" where
  "unsubscribeAll g w =
     (case alloc_array []
             (w\<lparr>gens := (gens w)(g := (gens w g)\<lparr>isSubscribed := False\<rparr>),
                unsubscribed := unsubscribed w
                  @ map (Pair g) (arrays w (subscriptions (gens w g)))\<rparr>) of
        (r, w1) \<Rightarrow> w1\<lparr>gens := (gens w1)(g := (gens w1 g)\<lparr>subscriptions := r\<rparr>)\<rparr>)"

text \<open>
  The handlers the effect of generation \<open>g\<close> passes to \<open>subscribe\<close> for \<open>key\<close>; they are
  anonymous in the code. First the one for \<open>onNext\<close>.
\<close>

definition next_handler :: "nat \<Rightarrow> string \<Rightarrow> jsval \<Rightarrow> world \<Rightarrow> world" where
  "next_handler g key value w =
     (if \<not> isSubscribed (gens w g) then w
      else
        let c = gens w g;
            isFirstEmission = \<not> hasOwn (heap w (values c)) key;
            c1 = c\<lparr>valueCount := (if isFirstEmission then valueCount c + 1
                                   else valueCount c)\<rparr>;
            w1 = w\<lparr>gens := (gens w)(g := c1),
                   heap := (heap w)(values c := assign key value (heap w (values c)))\<rparr>
        in if valueCount c1 = keyCount c1
           then (case alloc (heap w1 (values c)) w1 of (d, w2) \<Rightarrow> setState (Ready d) w2)
           else w1)"

text \<open>The handler for \<open>onError\<close>.\<close>

definition error_handler :: "nat \<Rightarrow> string \<Rightarrow> err \<Rightarrow> world \<Rightarrow> world" where
  "error_handler g key e w =
     (if \<not> isSubscribed (gens w g) then w
      else setState (Errored e) (unsubscribeAll g w))"

text \<open>The handler for \<open>onComplete\<close>: "Completion - no action needed".\<close>

definition complete_handler :: "nat \<Rightarrow> string \<Rightarrow> world \<Rightarrow> world" where
  "complete_handler g key w = w"

text \<open>\<open>observablesObject[key]\<close>, \<open>undefined\<close> for a key the object does not have.\<close>

definition undefined_source :: source where
  "undefined_source = \<lparr>sval = Undefined, ctor = Undefined, ctor_wmelonTag = Undefined,
     query_sync = [], observe = None, subscribe_method = None\<rparr>"

definition get_source :: "(string \<times> source) list \<Rightarrow> string \<Rightarrow> source" where
  "get_source obj key = (case map_of obj key of Some v \<Rightarrow> v | None \<Rightarrow> undefined_source)"

text \<open>
  The end of \<open>subscriptions.push(subscribe(...))\<close>: the \<open>Unsubscribe\<close> that \<open>subscribe\<close>
  returned for \<open>key\<close> is appended to \<open>receiver\<close>, the array \<open>subscriptions\<close> was bound to
  when the call began, before \<open>subscribe\<close> ran. After an \<open>unsubscribeAll\<close> inside
  \<open>subscribe\<close> that is no longer the array of the generation.
\<close>

definition push_subscription :: "nat \<Rightarrow> nat \<Rightarrow> string \<Rightarrow> world \<Rightarrow> world" where
  "push_subscription g receiver key w =
     w\<lparr>arrays := (arrays w)(receiver := arrays w receiver @ [key]),
       gens := (gens w)(g := (gens w g)\<lparr>attached := attached (gens w g) @ [key]\<rparr>)\<rparr>"

text \<open>
  \<open>keys.forEach((key) => { if (!isSubscribed) return; subscriptions.push(subscribe(...)) })\<close>
  over the keys still to visit. JavaScript evaluates \<open>subscriptions\<close>, the receiver of
  \<open>push\<close>, before the argument: the array is the one of the world \<open>w\<close> in which
  \<open>subscribe\<close> is called. \<open>Inl (e, w)\<close>: \<open>subscribe\<close> threw \<open>e\<close>, which ends the loop and the
  effect.
\<close>

fun subscribe_keys ::
  "nat \<Rightarrow> (string \<times> source) list \<Rightarrow> string list \<Rightarrow> world \<Rightarrow> (js_error \<times> world) + world" where
  "subscribe_keys g obj [] w = Inr w"
| "subscribe_keys g obj (key # rest) w =
     (if \<not> isSubscribed (gens w g) then subscribe_keys g obj rest w
      else
        (case subscribe (get_source obj key) (next_handler g key) (error_handler g key)
                (complete_handler g key) (w\<lparr>subscribe_log := subscribe_log w @ [(g, key)]\<rparr>) of
           Inl (e, w1) \<Rightarrow> Inl (e, w1)
         | Inr (u, w1) \<Rightarrow>
             subscribe_keys g obj rest
               (push_subscription g (subscriptions (gens w g)) key w1)))"

text \<open>
  The beginning of the effect: the variables of the new generation (\<open>subscriptions\<close> a
  new empty array, \<open>values\<close> a new empty object) and
  \<open>setState({ isLoading: true, data: null, error: null })\<close>; \<open>ks\<close> is
  \<open>Object.keys(observablesObject)\<close>.
\<close>

definition start_generation :: "string list \<Rightarrow> world \<Rightarrow> world" where
  "start_generation ks w =
     (case alloc_array [] w of (a, w0) \<Rightarrow>
      case alloc [] w0 of (r, w1) \<Rightarrow>
        setState Loading
          (w1\<lparr>gens := (gens w1)(ngens w1 := \<lparr>isSubscribed = True, subscriptions = a,
                   values = r, valueCount = 0, keys = ks, keyCount = length ks,
                   attached = []\<rparr>),
              ngens := Suc (ngens w1)\<rparr>))"

text \<open>
  The body of the effect, the same in \<open>useObservables\<close> and \<open>WithObservables\<close>, run for the
  object \<open>observablesObject\<close> (\<open>memoizedObservables\<close>). \<open>Inr (c, w)\<close>: it returned the cleanup
  \<open>c\<close>; \<open>Inl (e, w)\<close>: it threw.
\<close>

definition effect ::
  "(string \<times> source) list \<Rightarrow> world \<Rightarrow> (js_error \<times> world) + (nat option \<times> world)" where
  "effect observablesObject w =
     (let g = ngens w;
          ks = map fst observablesObject;
          w1 = start_generation ks w
      in if length ks = 0
         then (case alloc [] w1 of (d, w2) \<Rightarrow> Inr (None, setState (Ready d) w2))
         else (case subscribe_keys g observablesObject ks w1 of
                 Inl (e, w2) \<Rightarrow> Inl (e, w2)
               | Inr w2 \<Rightarrow> Inr (Some g, w2)))"

section \<open>The trigger props and the render functions\<close>

type_synonym props = "(string \<times> jsval) list"

text \<open>\<open>props[name]\<close>\<close>

definition get_prop :: "props \<Rightarrow> string \<Rightarrow> jsval" where
  "get_prop ps name = (case map_of ps name of Some v \<Rightarrow> v | None \<Rightarrow> Undefined)"

text \<open>
  \<^verbatim>\<open>function getTriggeringProps(props, propNames) {
    if (!propNames) { return [] }
    return propNames.map((name) => props[name])
  }\<close>
  (the contents of the array it makes).
\<close>

definition getTriggeringProps :: "props \<Rightarrow> string list option \<Rightarrow> jsval list" where
  "getTriggeringProps ps propNames =
     (case propNames of None \<Rightarrow> [] | Some names \<Rightarrow> map (get_prop ps) names)"

text \<open>
  Modelled from the spec: \<open>utils/fp/identicalArrays\<close> is imported and not among the
  sources. The spec: two lists are the same "iff they have equal length and every
  positional element is identical by value (primitives) or reference (objects) - not a
  deep comparison".
\<close>

fun identicalArrays :: "jsval list \<Rightarrow> jsval list \<Rightarrow> bool" where
  "identicalArrays [] [] = True"
| "identicalArrays (x # xs) (y # ys) = (x = y \<and> identicalArrays xs ys)"
| "identicalArrays xs ys = False"

text \<open>
  The body of \<open>useObservables(props, triggerProps, getObservables)\<close> in one render: it
  returns \<open>state\<close>, and leaves the effect for \<open>observablesObject\<close> to be committed. Both
  calls of \<open>getTriggeringProps\<close> make an array; the first is the argument of \<open>useRef\<close>,
  which only the first render keeps.
\<close>

definition useObservables ::
  "props \<Rightarrow> string list option \<Rightarrow> (props \<Rightarrow> observables) \<Rightarrow> world
     \<Rightarrow> combined_state \<times> observables \<times> world" where
  "useObservables ps triggerProps getObservables w =
     (case new_array (getTriggeringProps ps triggerProps) w of (initial, w1) \<Rightarrow>
      case new_array (getTriggeringProps ps triggerProps) w1 of (currentTriggerProps, w2) \<Rightarrow>
        let prev = (case hook w of None \<Rightarrow> initial | Some h \<Rightarrow> prevTriggerPropsRef h);
            triggerPropsChanged = \<not> identicalArrays (elems prev) (elems currentTriggerProps);
            triggerPropsKey = (if triggerPropsChanged then currentTriggerProps else prev);
            observablesObject =
              (case hook w of
                 None \<Rightarrow> getObservables ps
               | Some h \<Rightarrow> if memo_deps h = array_ref triggerPropsKey then memo h
                           else getObservables ps);
            h1 = (case hook w of
                    None \<Rightarrow> \<lparr>prevTriggerPropsRef = triggerPropsKey,
                              memo_deps = array_ref triggerPropsKey, memo = observablesObject,
                              effect_deps = None, cleanup = None\<rparr>
                  | Some h \<Rightarrow> h\<lparr>prevTriggerPropsRef := triggerPropsKey,
                                memo_deps := array_ref triggerPropsKey,
                                memo := observablesObject\<rparr>)
        in (state w, observablesObject, w2\<lparr>hook := Some h1\<rparr>))"

text \<open>What a render of \<open>WithObservables\<close> gives: \<open>null\<close>, a throw, or \<open>children(state.data)\<close>.\<close>

datatype render_result = RenderNull | RenderThrow err | RenderChildren "nat option"

text \<open>
  The body of \<open>WithObservables({ resetOn, observables, children })\<close> in one render; the
  array \<open>resetOn\<close> is the caller's.
\<close>

definition WithObservables ::
  "array \<Rightarrow> observables \<Rightarrow> world \<Rightarrow> render_result \<times> observables \<times> world" where
  "WithObservables resetOn obs w =
     (let prev = (case hook w of None \<Rightarrow> resetOn | Some h \<Rightarrow> prevTriggerPropsRef h);
          resetOnChanged = \<not> identicalArrays (elems prev) (elems resetOn);
          resetKey = (if resetOnChanged then resetOn else prev);
          memoizedObservables =
            (case hook w of
               None \<Rightarrow> obs
             | Some h \<Rightarrow> if memo_deps h = array_ref resetKey then memo h else obs);
          h1 = (case hook w of
                  None \<Rightarrow> \<lparr>prevTriggerPropsRef = resetKey, memo_deps = array_ref resetKey,
                            memo = memoizedObservables, effect_deps = None, cleanup = None\<rparr>
                | Some h \<Rightarrow> h\<lparr>prevTriggerPropsRef := resetKey, memo_deps := array_ref resetKey,
                              memo := memoizedObservables\<rparr>);
          result = (if isLoading (state w) then RenderNull
                    else (case error (state w) of
                            Some e \<Rightarrow> RenderThrow e
                          | None \<Rightarrow> RenderChildren (data (state w))))
      in (result, memoizedObservables, w\<lparr>hook := Some h1\<rparr>))"

section \<open>React around the hook, and the producers\<close>

text \<open>
  After a render React commits the effect declared with dependencies
  \<open>[observablesObject]\<close>: when the object is not the one the effect last ran for, it calls
  the cleanup that run returned, then runs the effect and keeps what it returns. An
  effect that throws takes the component down, with no cleanup kept for that run.
\<close>

definition commit_effect :: "observables \<Rightarrow> world \<Rightarrow> world" where
  "commit_effect observablesObject w =
     (case hook w of
        None \<Rightarrow> w
      | Some h \<Rightarrow>
          if effect_deps h = Some (obj_ref observablesObject) then w
          else
            (case effect (entries observablesObject)
                    (case cleanup h of Some g \<Rightarrow> unsubscribeAll g w | None \<Rightarrow> w) of
               Inl (e, w1) \<Rightarrow>
                 w1\<lparr>hook := Some (h\<lparr>effect_deps := Some (obj_ref observablesObject),
                                     cleanup := None\<rparr>),
                    mounted := False\<rparr>
             | Inr (c, w1) \<Rightarrow>
                 w1\<lparr>hook := Some (h\<lparr>effect_deps := Some (obj_ref observablesObject),
                                     cleanup := c\<rparr>)\<rparr>))"

text \<open>Unmounting calls the cleanup of the last run of the effect.\<close>

definition unmount :: "world \<Rightarrow> world" where
  "unmount w =
     (case hook w of
        None \<Rightarrow> w\<lparr>mounted := False\<rparr>
      | Some h \<Rightarrow>
          (case cleanup h of Some g \<Rightarrow> unsubscribeAll g w | None \<Rightarrow> w)\<lparr>mounted := False\<rparr>)"

text \<open>
  What can happen to a binding:
  \<^item> \<open>Render ps triggerProps getObservables\<close>: the component that calls \<open>useObservables\<close> is
    rendered with these arguments, and the render is committed;
  \<^item> \<open>RenderComponent resetOn obs\<close>: the same for \<open>WithObservables\<close>, which throws
    \<open>state.error\<close> during the render when there is one, and React then unmounts it;
  \<^item> \<open>Unmount\<close>;
  \<^item> \<open>Emit g key sig\<close>: the producer subscribed for \<open>key\<close> in generation \<open>g\<close> fires \<open>sig\<close> on
    the callbacks it was handed, whether or not its \<open>Unsubscribe\<close> was called. A producer
    that was handed no callbacks can fire nothing. A model or a query holds a listener
    made of these callbacks and can do less with them than this allows.
  Nothing is rendered after the component is unmounted.
\<close>

datatype event =
    Render props "string list option" "props \<Rightarrow> observables"
  | RenderComponent array observables
  | Unmount
  | Emit nat string signal

fun step :: "event \<Rightarrow> world \<Rightarrow> world" where
  "step (Render ps triggerProps getObservables) w =
     (if mounted w
      then (case useObservables ps triggerProps getObservables w of
              (result, observablesObject, w1) \<Rightarrow> commit_effect observablesObject w1)
      else w)"
| "step (RenderComponent resetOn obs) w =
     (if mounted w
      then (case WithObservables resetOn obs w of
              (RenderThrow e, memoizedObservables, w1) \<Rightarrow> unmount w1
            | (result, memoizedObservables, w1) \<Rightarrow> commit_effect memoizedObservables w1)
      else w)"
| "step Unmount w = (if mounted w then unmount w else w)"
| "step (Emit g key sig) w =
     (if g < ngens w \<and> key \<in> set (attached (gens w g))
      then fire (next_handler g key) (error_handler g key) (complete_handler g key) sig w
      else w)"

definition run :: "event list \<Rightarrow> world \<Rightarrow> world" where
  "run evs w = fold step evs w"

text \<open>
  An object has each own property once, so \<open>Object.keys\<close> lists no key twice: the lists
  of entries that stand for an object.
\<close>

definition wf_observables :: "observables \<Rightarrow> bool" where
  "wf_observables obs = distinct (map fst (entries obs))"

fun wf_event :: "event \<Rightarrow> bool" where
  "wf_event (Render ps triggerProps getObservables) = wf_observables (getObservables ps)"
| "wf_event (RenderComponent resetOn obs) = wf_observables obs"
| "wf_event Unmount = True"
| "wf_event (Emit g key sig) = True"

definition wf_trace :: "event list \<Rightarrow> bool" where
  "wf_trace evs = list_all wf_event evs"

text \<open>
  The objects none of whose own keys is \<open>__proto__\<close>, the one name for which
  \<open>values[key] = value\<close> does not make an own property of \<open>values\<close>; and the traces whose
  renders subscribe to such objects only.
\<close>

definition plain_observables :: "observables \<Rightarrow> bool" where
  "plain_observables obs = (''__proto__'' \<notin> set (map fst (entries obs)))"

fun plain_event :: "event \<Rightarrow> bool" where
  "plain_event (Render ps triggerProps getObservables) = plain_observables (getObservables ps)"
| "plain_event (RenderComponent resetOn obs) = plain_observables obs"
| "plain_event Unmount = True"
| "plain_event (Emit g key sig) = True"

definition plain_trace :: "event list \<Rightarrow> bool" where
  "plain_trace evs = list_all plain_event evs"

section \<open>What is observed of a binding\<close>

text \<open>
  The values a generation has accumulated, key by key: the own properties of its
  \<open>values\<close> object. A key is among them once the generation, while live, has received an
  emission for it.
\<close>

definition emitted :: "world \<Rightarrow> nat \<Rightarrow> (string \<times> jsval) list" where
  "emitted w g = heap w (values (gens w g))"

text \<open>The watched values the hook holds in \<open>prevTriggerPropsRef.current\<close>.\<close>

definition watched :: "world \<Rightarrow> jsval list" where
  "watched w = (case hook w of None \<Rightarrow> [] | Some h \<Rightarrow> elems (prevTriggerPropsRef h))"

text \<open>A generation that exists and whose \<open>isSubscribed\<close> is false.\<close>

definition cancelled :: "nat \<Rightarrow> world \<Rightarrow> bool" where
  "cancelled g w = (g < ngens w \<and> \<not> isSubscribed (gens w g))"

text \<open>Loading, Ready or Errored.\<close>

definition tri_state :: "combined_state \<Rightarrow> bool" where
  "tri_state st =
     ((isLoading st \<and> data st = None \<and> error st = None)
      \<or> (\<not> isLoading st \<and> data st \<noteq> None \<and> error st = None)
      \<or> (\<not> isLoading st \<and> data st = None \<and> error st \<noteq> None))"

section \<open>Invariants\<close>

text \<open>
  The variables of one generation fit together: \<open>keyCount\<close> is the number of keys, all
  different; \<open>values\<close> has own properties only for keys, and \<open>valueCount\<close> counts them;
  callbacks were handed out only for keys; the \<open>values\<close> object exists; and no key is
  \<open>__proto__\<close>.
\<close>

definition gen_ok :: "world \<Rightarrow> nat \<Rightarrow> bool" where
  "gen_ok w g =
     (keyCount (gens w g) = length (keys (gens w g))
      \<and> distinct (keys (gens w g))
      \<and> distinct (map fst (emitted w g))
      \<and> set (map fst (emitted w g)) \<subseteq> set (keys (gens w g))
      \<and> valueCount (gens w g) = length (emitted w g)
      \<and> set (attached (gens w g)) \<subseteq> set (keys (gens w g))
      \<and> values (gens w g) < next_ref w
      \<and> ''__proto__'' \<notin> set (keys (gens w g)))"

text \<open>All generations are in order, and no two share their \<open>values\<close> object.\<close>

definition gens_ok :: "world \<Rightarrow> bool" where
  "gens_ok w =
     ((\<forall>g<ngens w. gen_ok w g)
      \<and> (\<forall>g<ngens w. \<forall>g'<ngens w. values (gens w g) = values (gens w g') \<longrightarrow> g = g'))"

text \<open>Among the first \<open>n\<close> generations, only those without keys are still live.\<close>

definition settled :: "nat \<Rightarrow> world \<Rightarrow> bool" where
  "settled n w = (\<forall>g<n. isSubscribed (gens w g) \<longrightarrow> keys (gens w g) = [])"

text \<open>
  The state fits the latest generation: it is one of the three; its data, if any, is an
  object apart from every \<open>values\<close> object, with the keys of the latest generation; and
  while that generation is live and has keys, the state is Ready with a copy of \<open>values\<close>
  when all keys are counted and Loading when not.
\<close>

definition state_ok :: "world \<Rightarrow> bool" where
  "state_ok w =
     (tri_state (state w)
      \<and> (\<forall>d. data (state w) = Some d \<longrightarrow>
            d < next_ref w \<and> (\<forall>g<ngens w. values (gens w g) \<noteq> d) \<and> 0 < ngens w
            \<and> distinct (map fst (heap w d))
            \<and> set (map fst (heap w d)) = set (keys (gens w (ngens w - 1))))
      \<and> (0 < ngens w \<and> isSubscribed (gens w (ngens w - 1)) \<and> keys (gens w (ngens w - 1)) \<noteq> [] \<longrightarrow>
            (valueCount (gens w (ngens w - 1)) = keyCount (gens w (ngens w - 1)) \<longrightarrow>
               (\<exists>d. state w = Ready d \<and> heap w d = emitted w (ngens w - 1)))
            \<and> (valueCount (gens w (ngens w - 1)) \<noteq> keyCount (gens w (ngens w - 1)) \<longrightarrow>
               state w = Loading)))"

text \<open>The invariant of the effect and its handlers.\<close>

definition einv :: "world \<Rightarrow> bool" where
  "einv w = (gens_ok w \<and> settled (ngens w - 1) w \<and> state_ok w)"

text \<open>The cleanup React holds for the component, if any.\<close>

definition cleanup_of :: "world \<Rightarrow> nat option" where
  "cleanup_of w = (case hook w of None \<Rightarrow> None | Some h \<Rightarrow> cleanup h)"

text \<open>
  While the component is mounted, React holds the cleanup of every generation that is
  live and has keys.
\<close>

definition hinv :: "world \<Rightarrow> bool" where
  "hinv w =
     (mounted w \<longrightarrow>
        (\<forall>g<ngens w. isSubscribed (gens w g) \<and> keys (gens w g) \<noteq> [] \<longrightarrow> cleanup_of w = Some g))"

text \<open>What the subscription loop of generation \<open>g\<close> keeps.\<close>

definition loop_inv ::
  "nat \<Rightarrow> nat \<Rightarrow> string list \<Rightarrow> hook_slots option \<Rightarrow> bool \<Rightarrow> world \<Rightarrow> bool" where
  "loop_inv g n ks h m w =
     (einv w \<and> ngens w = n \<and> keys (gens w g) = ks \<and> hook w = h \<and> mounted w = m)"

text \<open>The memoized object lists no key twice, and not the key \<open>__proto__\<close>.\<close>

definition memo_ok :: "world \<Rightarrow> bool" where
  "memo_ok w =
     (case hook w of
        None \<Rightarrow> True
      | Some h \<Rightarrow> wf_observables (memo h) \<and> plain_observables (memo h))"

definition inv :: "world \<Rightarrow> bool" where
  "inv w = (einv w \<and> hinv w \<and> memo_ok w)"

section \<open>Sample sources and bindings\<close>

text \<open>
  One source of each shape, for the worked instances: a model and a query that also have
  an \<open>observe\<close> method, an object with both \<open>observe\<close> and \<open>subscribe\<close>, a \<open>BehaviorSubject\<close>,
  an object that is none of these, \<open>null\<close> and \<open>undefined\<close>.
\<close>

definition aModel :: source where
  "aModel = \<lparr>sval = Obj 1, ctor = Obj 100, ctor_wmelonTag = Str ''model'', query_sync = [],
     observe = Some (Observable [Next (Num 5)]), subscribe_method = None\<rparr>"

definition aQuery :: source where
  "aQuery = \<lparr>sval = Obj 2, ctor = Obj 101, ctor_wmelonTag = Str ''query'',
     query_sync = [Obj 20], observe = Some (Observable [Next (Num 6)]),
     subscribe_method = None\<rparr>"

definition aConvertible :: source where
  "aConvertible = \<lparr>sval = Obj 3, ctor = Obj 102, ctor_wmelonTag = Undefined, query_sync = [],
     observe = Some (Observable [Next (Str ''observed'')]),
     subscribe_method = Some (Observable [Next (Str ''direct'')])\<rparr>"

definition aBehaviorSubject :: source where
  "aBehaviorSubject = \<lparr>sval = Obj 4, ctor = Obj 103, ctor_wmelonTag = Undefined,
     query_sync = [], observe = None,
     subscribe_method = Some (Observable [Next (Str ''value1'')])\<rparr>"

definition aPlainObject :: source where
  "aPlainObject = \<lparr>sval = Obj 5, ctor = Obj 104, ctor_wmelonTag = Undefined, query_sync = [],
     observe = None, subscribe_method = None\<rparr>"

definition aNull :: source where
  "aNull = \<lparr>sval = Null, ctor = Undefined, ctor_wmelonTag = Undefined, query_sync = [],
     observe = None, subscribe_method = None\<rparr>"

definition anUndefined :: source where
  "anUndefined = \<lparr>sval = Undefined, ctor = Undefined, ctor_wmelonTag = Undefined,
     query_sync = [], observe = None, subscribe_method = None\<rparr>"

text \<open>
  \<open>subject r sigs\<close> is an rxjs subject (the object at \<open>r\<close>) that fires \<open>sigs\<close> when subscribed
  to: nothing for a \<open>Subject\<close>, its current value for a \<open>BehaviorSubject\<close>, an error for
  \<open>throwError\<close>.
\<close>

definition subject :: "nat \<Rightarrow> signal list \<Rightarrow> source" where
  "subject r sigs = \<lparr>sval = Obj r, ctor = Obj 100, ctor_wmelonTag = Undefined, query_sync = [],
     observe = None, subscribe_method = Some (Observable sigs)\<rparr>"

text \<open>
  A \<open>BehaviorSubject\<close> and a \<open>Subject\<close> that has not emitted: after the first render
  (\<open>waiting\<close>), and after the \<open>Subject\<close> has emitted too (\<open>bothEmitted\<close>).
\<close>

definition twoSubjects :: "props \<Rightarrow> observables" where
  "twoSubjects ps = \<lparr>obj_ref = 50, entries = [(''first'', subject 11 [Next (Str ''value1'')]),
     (''second'', subject 12 [])]\<rparr>"

definition waiting :: world where
  "waiting = run [Render [] None twoSubjects] init_world"


text \<open>An object made anew for each \<open>id\<close>, watched through \<open>['id']\<close>.\<close>

definition itemFor :: "props \<Rightarrow> observables" where
  "itemFor ps = \<lparr>obj_ref = (case get_prop ps ''id'' of Num n \<Rightarrow> 60 + nat n | _ \<Rightarrow> 60),
     entries = [(''item'', subject 14 [Next (get_prop ps ''id'')])]\<rparr>"

definition item1 :: world where
  "item1 = run [Render [(''id'', Num 1)] (Some [''id'']) itemFor] init_world"

text \<open>A factory that returns one and the same object whatever the props.\<close>

definition constItem :: "props \<Rightarrow> observables" where
  "constItem ps = \<lparr>obj_ref = 70, entries = [(''item'', subject 14 [Next (Str ''data'')])]\<rparr>"

definition constItem1 :: world where
  "constItem1 = run [Render [(''id'', Num 1)] (Some [''id'']) constItem] init_world"

text \<open>An object without keys, and a single \<open>throwError\<close> after the first render.\<close>

definition noObservables :: "props \<Rightarrow> observables" where
  "noObservables ps = \<lparr>obj_ref = 52, entries = []\<rparr>"





text \<open>
  An object with the own keys \<open>__proto__\<close> (as a computed key or \<open>JSON.parse\<close> makes it) and
  \<open>b\<close>, the first a \<open>BehaviorSubject\<close> and the second a \<open>Subject\<close>: after the first render, and
  after the \<open>BehaviorSubject\<close> has emitted once more.
\<close>

definition protoKeyed :: "props \<Rightarrow> observables" where
  "protoKeyed ps = \<lparr>obj_ref = 54, entries = [(''__proto__'', subject 15 [Next (Str ''p'')]),
     (''b'', subject 16 [])]\<rparr>"

definition protoFirst :: world where
  "protoFirst = run [Render [] None protoKeyed] init_world"

definition protoTwice :: world where
  "protoTwice = run [Render [] None protoKeyed, Emit 0 ''__proto__'' (Next (Str ''q''))]
     init_world"



section \<open>Properties of the source adapter\<close>

lemma nullish_not_truthy: "nullish v \<Longrightarrow> \<not> truthy v"
  by (cases v) auto

lemma nullish_wmelonTag: "nullish (sval src) \<Longrightarrow> wmelonTag src = sval src"
  by (simp add: wmelonTag_def js_and_def nullish_not_truthy)

lemma nullish_not_Str: "nullish v \<Longrightarrow> v \<noteq> Str t"
  by (cases v) auto

text \<open>
  C5. \<open>subscribe\<close> resolves the shape of a source in a fixed order, the first match
  winning: a constructor tagged \<open>model\<close> (whatever else the value offers), then one tagged
  \<open>query\<close>, then an \<open>observe\<close> method (even when there is a \<open>subscribe\<close> method too), then a
  \<open>subscribe\<close> method. A value of no recognised shape makes \<open>subscribe\<close> throw, in the
  state it was called in and without having called \<open>onNext\<close>, \<open>onError\<close> or \<open>onComplete\<close>.
\<close>

theorem subscribe_resolution_order:
  "(wmelonTag src = Str ''model'' \<longrightarrow>
      subscribe src onNext onError onComplete s =
        Inr (ModelChanges (model_listener src onNext onComplete), onNext (sval src) s))
   \<and> (wmelonTag src \<noteq> Str ''model'' \<and> wmelonTag src = Str ''query'' \<longrightarrow>
      subscribe src onNext onError onComplete s =
        Inr (QueryResults onNext, fold onNext (query_sync src) s))
   \<and> (wmelonTag src \<noteq> Str ''model'' \<and> wmelonTag src \<noteq> Str ''query'' \<and>
      \<not> nullish (sval src) \<and> observe src = Some ob \<longrightarrow>
      subscribe src onNext onError onComplete s =
        Inr (ObserveSubscription (fire onNext onError onComplete),
             fold (fire onNext onError onComplete) (sync_signals ob) s))
   \<and> (wmelonTag src \<noteq> Str ''model'' \<and> wmelonTag src \<noteq> Str ''query'' \<and>
      \<not> nullish (sval src) \<and> observe src = None \<and> subscribe_method src = Some ob \<longrightarrow>
      subscribe src onNext onError onComplete s =
        Inr (DirectSubscription (fire onNext onError onComplete),
             fold (fire onNext onError onComplete) (sync_signals ob) s))
   \<and> (wmelonTag src \<noteq> Str ''model'' \<and> wmelonTag src \<noteq> Str ''query'' \<and>
      (nullish (sval src) \<or> (observe src = None \<and> subscribe_method src = None)) \<longrightarrow>
      (\<exists>e. subscribe src onNext onError onComplete s = Inl (e, s)) \<and>
      (\<exists>e. subscribe_calls src = Inl (e, [])))"
  by (auto simp: subscribe_def subscribe_calls_def get_observe_def get_subscribe_def
      model_experimentalSubscribe_def query_experimentalSubscribe_def
      observable_subscribe_def split: option.splits)

theorem subscribe_resolution_order_witness:
  "(wmelonTag aModel = Str ''model'' \<and>
    subscribe aModel logNext logError logComplete [] =
      Inr (ModelChanges (model_listener aModel logNext logComplete), [CalledNext (Obj 1)]))
   \<and> (wmelonTag aQuery = Str ''query'' \<and>
    subscribe aQuery logNext logError logComplete [] =
      Inr (QueryResults logNext, [CalledNext (Obj 20)]))
   \<and> (observe aConvertible = Some (Observable [Next (Str ''observed'')]) \<and>
    subscribe aConvertible logNext logError logComplete [] =
      Inr (ObserveSubscription (fire logNext logError logComplete),
           [CalledNext (Str ''observed'')]))
   \<and> (observe aBehaviorSubject = None \<and>
    subscribe aBehaviorSubject logNext logError logComplete [] =
      Inr (DirectSubscription (fire logNext logError logComplete),
           [CalledNext (Str ''value1'')]))
   \<and> (observe aPlainObject = None \<and> subscribe_method aPlainObject = None \<and>
    (\<exists>e. subscribe aPlainObject logNext logError logComplete [] = Inl (e, [])) \<and>
    (\<exists>e. subscribe_calls aPlainObject = Inl (e, [])))"
  using subscribe_resolution_order [where src = aModel and onNext = logNext
      and onError = logError and onComplete = logComplete and s = "[]"]
    subscribe_resolution_order [where src = aQuery and onNext = logNext
      and onError = logError and onComplete = logComplete and s = "[]"]
    subscribe_resolution_order [where src = aConvertible and onNext = logNext
      and onError = logError and onComplete = logComplete and s = "[]"
      and ob = "Observable [Next (Str ''observed'')]"]
    subscribe_resolution_order [where src = aBehaviorSubject and onNext = logNext
      and onError = logError and onComplete = logComplete and s = "[]"
      and ob = "Observable [Next (Str ''value1'')]"]
    subscribe_resolution_order [where src = aPlainObject and onNext = logNext
      and onError = logError and onComplete = logComplete and s = "[]"]
  by (simp add: aModel_def aQuery_def aConvertible_def aBehaviorSubject_def aPlainObject_def
      wmelonTag_def js_and_def logNext_def)

text \<open>
  C6. For a source whose constructor is tagged \<open>model\<close>, \<open>subscribe\<close> calls \<open>onNext(value)\<close>
  exactly once before it returns, and nothing else; the listener it leaves with the model
  calls \<open>onNext(value)\<close> again on a change notification with \<open>isDeleted\<close> false and
  \<open>onComplete()\<close>, not \<open>onNext\<close>, on one with \<open>isDeleted\<close> true.
\<close>

theorem subscribe_model_emits_once:
  "wmelonTag src = Str ''model'' \<Longrightarrow>
     subscribe_calls src =
       Inr (ModelChanges (model_listener src logNext logComplete), [CalledNext (sval src)])
     \<and> subscribe src onNext onError onComplete s =
       Inr (ModelChanges (model_listener src onNext onComplete), onNext (sval src) s)
     \<and> model_listener src onNext onComplete False = onNext (sval src)
     \<and> model_listener src onNext onComplete True = onComplete
     \<and> model_listener src logNext logComplete False l = l @ [CalledNext (sval src)]
     \<and> model_listener src logNext logComplete True l = l @ [CalledComplete]"
  by (simp add: subscribe_def subscribe_calls_def model_experimentalSubscribe_def
      model_listener_def logNext_def logComplete_def)

theorem subscribe_model_emits_once_witness:
  "wmelonTag aModel = Str ''model'' \<and>
   subscribe_calls aModel =
     Inr (ModelChanges (model_listener aModel logNext logComplete), [CalledNext (Obj 1)]) \<and>
   model_listener aModel logNext logComplete False [CalledNext (Obj 1)] =
     [CalledNext (Obj 1), CalledNext (Obj 1)] \<and>
   model_listener aModel logNext logComplete True [CalledNext (Obj 1)] =
     [CalledNext (Obj 1), CalledComplete]"
proof -
  have tag: "wmelonTag aModel = Str ''model''"
    by (simp add: aModel_def wmelonTag_def js_and_def)
  have v: "sval aModel = Obj 1"
    by (simp add: aModel_def)
  show ?thesis
    using tag subscribe_model_emits_once [OF tag, where onNext = logNext
        and onError = logError and onComplete = logComplete and s = "[]"
        and l = "[CalledNext (Obj 1)]"]
    by (simp add: v logNext_def logComplete_def)
qed

text \<open>
  C10. For a source that is \<open>null\<close> or \<open>undefined\<close>, \<open>subscribe\<close> throws before it has called
  any of the three callbacks, and what it throws is the TypeError of the property read
  \<open>value.observe\<close>, not the error of the final "doesn't appear to be observable" branch.
\<close>

theorem subscribe_nullish_throws_TypeError:
  "nullish (sval src) \<Longrightarrow>
     subscribe src onNext onError onComplete s = Inl (TypeError, s)
     \<and> subscribe_calls src = Inl (TypeError, [])
     \<and> subscribe_calls src \<noteq> Inl (NotObservableError, [])"
  using nullish_wmelonTag [of "src"] nullish_not_Str [of "sval src"]
  by (simp add: subscribe_def subscribe_calls_def get_observe_def)

theorem subscribe_nullish_throws_TypeError_witness:
  "nullish (sval aNull) \<and> subscribe_calls aNull = Inl (TypeError, []) \<and>
   nullish (sval anUndefined) \<and> subscribe_calls anUndefined = Inl (TypeError, [])"
proof -
  have n: "nullish (sval aNull)" and u: "nullish (sval anUndefined)"
    by (simp_all add: aNull_def anUndefined_def)
  show ?thesis
    using n u subscribe_nullish_throws_TypeError [OF n, where onNext = logNext
        and onError = logError and onComplete = logComplete and s = "[]"]
      subscribe_nullish_throws_TypeError [OF u, where onNext = logNext
        and onError = logError and onComplete = logComplete and s = "[]"]
    by simp
qed

subsection \<open>What the adapter does to a property of the caller's state\<close>

lemma fold_fire_preserves:
  assumes "\<And>v s. P s \<Longrightarrow> P (onNext v s)"
    and "\<And>e s. P s \<Longrightarrow> P (onError e s)"
    and "\<And>s. P s \<Longrightarrow> P (onComplete s)"
    and "P s"
  shows "P (fold (fire onNext onError onComplete) sigs s)"
  using assms(4)
proof (induction sigs arbitrary: s)
  case Nil
  then show ?case by simp
next
  case (Cons sg sigs)
  have "P (fire onNext onError onComplete sg s)"
    using Cons.prems assms(1-3) by (cases sg) simp_all
  then show ?case using Cons.IH by simp
qed

lemma fold_onNext_preserves:
  assumes "\<And>v s. P s \<Longrightarrow> P (onNext v s)" and "P s"
  shows "P (fold onNext vs s)"
  using assms(2) by (induction vs arbitrary: s) (simp_all add: assms(1))

lemma subscribe_preserves:
  assumes "\<And>v s. P s \<Longrightarrow> P (onNext v s)"
    and "\<And>e s. P s \<Longrightarrow> P (onError e s)"
    and "\<And>s. P s \<Longrightarrow> P (onComplete s)"
    and "P s"
  shows "case subscribe src onNext onError onComplete s of
           Inl (e, s1) \<Rightarrow> P s1 | Inr (u, s1) \<Rightarrow> P s1"
proof -
  have f: "\<And>sigs. P (fold (fire onNext onError onComplete) sigs s)"
    using fold_fire_preserves [of P onNext onError onComplete s] assms by blast
  have q: "\<And>vs. P (fold onNext vs s)"
    using fold_onNext_preserves [of P onNext s] assms by blast
  show ?thesis
    using assms(1,4) f q
    by (simp add: subscribe_def model_experimentalSubscribe_def
        query_experimentalSubscribe_def observable_subscribe_def get_observe_def
        get_subscribe_def split: option.splits)
qed

section \<open>A cancelled generation stays cancelled\<close>

lemma cancelled_next_handler: "cancelled g w \<Longrightarrow> cancelled g (next_handler g' k v w)"
  by (auto simp: cancelled_def next_handler_def Let_def alloc_def setState_def)

lemma cancelled_unsubscribeAll: "cancelled g w \<Longrightarrow> cancelled g (unsubscribeAll g' w)"
  by (auto simp: cancelled_def unsubscribeAll_def alloc_array_def)

lemma cancelled_error_handler: "cancelled g w \<Longrightarrow> cancelled g (error_handler g' k e w)"
  using cancelled_unsubscribeAll [of g w g']
  by (auto simp: error_handler_def setState_def cancelled_def)

lemma cancelled_complete_handler: "cancelled g w \<Longrightarrow> cancelled g (complete_handler g' k w)"
  by (simp add: complete_handler_def)

lemma cancelled_push: "cancelled g w \<Longrightarrow> cancelled g (push_subscription g' r k w)"
  by (auto simp: cancelled_def push_subscription_def)

lemma cancelled_log: "cancelled g w \<Longrightarrow> cancelled g (w\<lparr>subscribe_log := l\<rparr>)"
  by (simp add: cancelled_def)

lemma cancelled_subscribe_keys:
  "cancelled g w \<Longrightarrow>
   (case subscribe_keys g' obj ks w of Inl (e, w1) \<Rightarrow> cancelled g w1 | Inr w1 \<Rightarrow> cancelled g w1)"
proof (induction ks arbitrary: w)
  case Nil
  then show ?case by simp
next
  case (Cons k ks)
  show ?case
  proof (cases "isSubscribed (gens w g')")
    case False
    then show ?thesis using Cons by simp
  next
    case True
    let ?w = "w\<lparr>subscribe_log := subscribe_log w @ [(g', k)]\<rparr>"
    have s: "case subscribe (get_source obj k) (next_handler g' k) (error_handler g' k)
                 (complete_handler g' k) ?w of
               Inl (e, s1) \<Rightarrow> cancelled g s1 | Inr (u, s1) \<Rightarrow> cancelled g s1"
      by (rule subscribe_preserves)
        (simp_all add: cancelled_next_handler cancelled_error_handler
          cancelled_complete_handler cancelled_log Cons.prems)
    show ?thesis
    proof (cases "subscribe (get_source obj k) (next_handler g' k) (error_handler g' k)
                 (complete_handler g' k) ?w")
      case (Inl a)
      then show ?thesis using s True by (cases a) simp
    next
      case (Inr b)
      obtain u w1 where b: "b = (u, w1)" by (cases b)
      have "cancelled g (push_subscription g' (subscriptions (gens w g')) k w1)"
        using s Inr b cancelled_push by simp
      then show ?thesis using Cons.IH Inr b True by simp
    qed
  qed
qed

lemma cancelled_start_generation: "cancelled g w \<Longrightarrow> cancelled g (start_generation ks w)"
  by (auto simp: cancelled_def start_generation_def alloc_array_def alloc_def setState_def)

lemma cancelled_effect:
  "cancelled g w \<Longrightarrow>
   (case effect obj w of Inl (e, w1) \<Rightarrow> cancelled g w1 | Inr (c, w1) \<Rightarrow> cancelled g w1)"
proof -
  assume c: "cancelled g w"
  have c3: "cancelled g (start_generation (map fst obj) w)"
    using c by (rule cancelled_start_generation)
  show ?thesis
  proof (cases "obj = []")
    case True
    then show ?thesis
      using c3 by (auto simp: effect_def Let_def alloc_def setState_def cancelled_def)
  next
    case False
    then show ?thesis
      using cancelled_subscribe_keys [OF c3, of "ngens w" obj "map fst obj"]
      by (auto simp: effect_def Let_def split: sum.splits)
  qed
qed

lemma cancelled_hook: "cancelled g w \<Longrightarrow> cancelled g (w\<lparr>hook := h\<rparr>)"
  by (simp add: cancelled_def)

lemma cancelled_mounted: "cancelled g w \<Longrightarrow> cancelled g (w\<lparr>mounted := h\<rparr>)"
  by (simp add: cancelled_def)

lemma cancelled_commit_effect: "cancelled g w \<Longrightarrow> cancelled g (commit_effect ob w)"
proof -
  assume c: "cancelled g w"
  show ?thesis
  proof (cases "hook w")
    case None
    then show ?thesis using c by (simp add: commit_effect_def)
  next
    case (Some h)
    let ?w = "(case cleanup h of Some g' \<Rightarrow> unsubscribeAll g' w | None \<Rightarrow> w)"
    have "cancelled g ?w"
      using c cancelled_unsubscribeAll by (simp split: option.splits)
    from cancelled_effect [OF this, of "entries ob"] show ?thesis
      using Some c
      by (auto simp: commit_effect_def cancelled_hook cancelled_mounted split: sum.splits)
  qed
qed

lemma cancelled_unmount: "cancelled g w \<Longrightarrow> cancelled g (unmount w)"
  using cancelled_unsubscribeAll [of g w]
  by (auto simp: unmount_def cancelled_mounted split: option.splits)

lemma cancelled_useObservables:
  "cancelled g w \<Longrightarrow> useObservables ps tp f w = (r, ob, w1) \<Longrightarrow> cancelled g w1"
  by (auto simp: useObservables_def new_array_def Let_def cancelled_def)

lemma cancelled_WithObservables:
  "cancelled g w \<Longrightarrow> WithObservables ra obs w = (r, ob, w1) \<Longrightarrow> cancelled g w1"
  by (auto simp: WithObservables_def Let_def cancelled_def)

lemma cancelled_fire:
  "cancelled g w \<Longrightarrow>
   cancelled g (fire (next_handler g' k) (error_handler g' k) (complete_handler g' k) sg w)"
  by (cases sg)
    (simp_all add: cancelled_next_handler cancelled_error_handler cancelled_complete_handler)

lemma cancelled_step: "cancelled g w \<Longrightarrow> cancelled g (step ev w)"
proof (cases ev)
  case (Render ps tp f)
  assume c: "cancelled g w"
  obtain r ob w1 where u: "useObservables ps tp f w = (r, ob, w1)"
    by (cases "useObservables ps tp f w") auto
  show ?thesis
    using c u Render cancelled_useObservables [OF c u] cancelled_commit_effect [of g w1 ob]
    by simp
next
  case (RenderComponent ra obs)
  assume c: "cancelled g w"
  obtain r ob w1 where u: "WithObservables ra obs w = (r, ob, w1)"
    by (cases "WithObservables ra obs w") auto
  show ?thesis
    using c u RenderComponent cancelled_WithObservables [OF c u]
      cancelled_commit_effect [of g w1 ob] cancelled_unmount [of g w1]
    by (cases r) simp_all
next
  case Unmount
  assume "cancelled g w"
  then show ?thesis using Unmount cancelled_unmount by simp
next
  case (Emit g' k sg)
  assume "cancelled g w"
  then show ?thesis using Emit cancelled_fire by simp
qed

lemma cancelled_run: "cancelled g w \<Longrightarrow> cancelled g (run evs w)"
  unfolding run_def by (induction evs arbitrary: w) (simp_all add: cancelled_step)

lemma cancelled_inert:
  "cancelled g w \<Longrightarrow>
     next_handler g k v w = w \<and> error_handler g k e w = w \<and> complete_handler g k w = w
     \<and> step (Emit g k sg) w = w"
  by (cases sg) (simp_all add: cancelled_def next_handler_def error_handler_def complete_handler_def)

lemma unsubscribeAll_cancels: "g < ngens w \<Longrightarrow> cancelled g (unsubscribeAll g w)"
  by (simp add: cancelled_def unsubscribeAll_def alloc_array_def)

lemma error_handler_cancels:
  "g < ngens w \<Longrightarrow> isSubscribed (gens w g) \<Longrightarrow> cancelled g (error_handler g k e w)"
  by (simp add: cancelled_def unsubscribeAll_def alloc_array_def error_handler_def setState_def)

lemma unmount_cancels:
  "g < ngens w \<Longrightarrow> hook w = Some h \<Longrightarrow> cleanup h = Some g \<Longrightarrow> cancelled g (unmount w)"
  by (simp add: cancelled_def unsubscribeAll_def alloc_array_def unmount_def)

lemma ngens_useObservables: "useObservables ps tp f w = (r, ob, w1) \<Longrightarrow>
   ngens w1 = ngens w \<and> gens w1 = gens w \<and>
   (case hook w of None \<Rightarrow> True | Some h \<Rightarrow> \<exists>h1. hook w1 = Some h1 \<and> cleanup h1 = cleanup h)"
  by (auto simp: useObservables_def new_array_def Let_def split: option.splits)

lemma ngens_WithObservables: "WithObservables ra obs w = (r, ob, w1) \<Longrightarrow>
   ngens w1 = ngens w \<and> gens w1 = gens w \<and>
   (case hook w of None \<Rightarrow> True | Some h \<Rightarrow> \<exists>h1. hook w1 = Some h1 \<and> cleanup h1 = cleanup h)"
  by (auto simp: WithObservables_def Let_def split: option.splits)

lemma ngens_unsubscribeAll [simp]: "ngens (unsubscribeAll g w) = ngens w"
  by (simp add: unsubscribeAll_def alloc_array_def)

lemma ngens_unmount [simp]: "ngens (unmount w) = ngens w"
  by (simp add: unmount_def split: option.splits)

lemma ngens_next_handler [simp]: "ngens (next_handler g k v w) = ngens w"
  by (simp add: next_handler_def Let_def alloc_def setState_def)

lemma ngens_error_handler [simp]: "ngens (error_handler g k e w) = ngens w"
  by (simp add: error_handler_def setState_def)

lemma ngens_fire [simp]:
  "ngens (fire (next_handler g k) (error_handler g k) (complete_handler g k) sg w) = ngens w"
  by (cases sg) (simp_all add: complete_handler_def)

lemma commit_effect_replaces:
  assumes "g < ngens w" and "hook w = Some h" and "cleanup h = Some g"
    and "ngens (commit_effect ob w) \<noteq> ngens w"
  shows "cancelled g (commit_effect ob w)"
proof -
  have ne: "effect_deps h \<noteq> Some (obj_ref ob)"
    using assms by (auto simp: commit_effect_def)
  have "cancelled g (unsubscribeAll g w)"
    using assms(1) by (rule unsubscribeAll_cancels)
  from cancelled_effect [OF this, of "entries ob"] show ?thesis
    using assms(2,3) ne
    by (auto simp: commit_effect_def cancelled_hook cancelled_mounted split: sum.splits)
qed

lemma step_replaces:
  assumes "g < ngens w" and "hook w = Some h" and "cleanup h = Some g"
    and "ngens (step ev w) \<noteq> ngens w"
  shows "cancelled g (step ev w)"
proof (cases ev)
  case (Render ps tp f)
  obtain r ob w1 where u: "useObservables ps tp f w = (r, ob, w1)"
    by (cases "useObservables ps tp f w") auto
  from ngens_useObservables [OF u] assms(2,3) obtain h1 where
    h1: "hook w1 = Some h1" "cleanup h1 = Some g" "ngens w1 = ngens w"
    by auto
  have m: "mounted w" using assms(4) Render by (auto split: if_splits)
  show ?thesis
    using commit_effect_replaces [of g w1 h1 ob] h1 assms(1,4) Render u m by simp
next
  case (RenderComponent ra obs)
  obtain r ob w1 where u: "WithObservables ra obs w = (r, ob, w1)"
    by (cases "WithObservables ra obs w") auto
  from ngens_WithObservables [OF u] assms(2,3) obtain h1 where
    h1: "hook w1 = Some h1" "cleanup h1 = Some g" "ngens w1 = ngens w"
    by auto
  have m: "mounted w" using assms(4) RenderComponent by (auto split: if_splits)
  show ?thesis
    using commit_effect_replaces [of g w1 h1 ob] h1 assms(1,4) RenderComponent u m
    by (cases r) simp_all
next
  case Unmount
  then show ?thesis using assms(4) by (simp split: if_splits)
next
  case (Emit g' k sg)
  then show ?thesis using assms(4) by (simp split: if_splits)
qed

section \<open>The invariant is kept by every event\<close>

lemma length_update:
  "length (AList.update k v al) = (if k \<in> fst ` set al then length al else Suc (length al))"
  by (induction al) auto

lemma all_emitted_iff:
  assumes "gen_ok w g"
  shows "valueCount (gens w g) = keyCount (gens w g)
         \<longleftrightarrow> set (map fst (emitted w g)) = set (keys (gens w g))"
proof -
  let ?e = "map fst (emitted w g)" and ?k = "keys (gens w g)"
  have d: "distinct ?e" "distinct ?k" and sub: "set ?e \<subseteq> set ?k"
    and n: "valueCount (gens w g) = length ?e" "keyCount (gens w g) = length ?k"
    using assms by (simp_all add: gen_ok_def)
  have c: "card (set ?e) = length ?e" "card (set ?k) = length ?k"
    using distinct_card [OF d(1)] distinct_card [OF d(2)] by simp_all
  show ?thesis
  proof
    assume "valueCount (gens w g) = keyCount (gens w g)"
    then have "card (set ?e) = card (set ?k)" using n c by simp
    then show "set ?e = set ?k" using sub by (simp add: card_subset_eq)
  next
    assume "set ?e = set ?k"
    then show "valueCount (gens w g) = keyCount (gens w g)" using n c by metis
  qed
qed

lemma gen_ok_not_proto: "gen_ok w g \<Longrightarrow> k \<in> set (keys (gens w g)) \<Longrightarrow> k \<noteq> ''__proto__''"
  by (auto simp: gen_ok_def)

text \<open>
  What the next handler does to a live generation, field by field, for a key other than
  \<open>__proto__\<close>.
\<close>

lemma next_handler_live:
  assumes "isSubscribed (gens w g)" and "k \<noteq> ''__proto__''"
  shows "next_handler g k v w =
    (if (if hasOwn (emitted w g) k then valueCount (gens w g) else Suc (valueCount (gens w g)))
        = keyCount (gens w g)
     then w\<lparr>gens := (gens w)(g := (gens w g)\<lparr>valueCount :=
                 (if hasOwn (emitted w g) k then valueCount (gens w g)
                  else Suc (valueCount (gens w g)))\<rparr>),
            heap := (heap w)(values (gens w g) := AList.update k v (emitted w g),
                             next_ref w := AList.update k v (emitted w g)),
            next_ref := Suc (next_ref w),
            state := Ready (next_ref w)\<rparr>
     else w\<lparr>gens := (gens w)(g := (gens w g)\<lparr>valueCount :=
                 (if hasOwn (emitted w g) k then valueCount (gens w g)
                  else Suc (valueCount (gens w g)))\<rparr>),
            heap := (heap w)(values (gens w g) := AList.update k v (emitted w g))\<rparr>)"
  using assms
  by (simp add: next_handler_def Let_def alloc_def setState_def emitted_def assign_def)

lemma gen_ok_next_handler_same:
  assumes ok: "gen_ok w g" and live: "isSubscribed (gens w g)"
    and k: "k \<in> set (keys (gens w g))"
  shows "gen_ok (next_handler g k v w) g"
  using ok k
  by (auto simp: next_handler_live [OF live gen_ok_not_proto [OF ok k]] gen_ok_def emitted_def
      hasOwn_def AList.distinct_update AList.dom_update length_update)

lemma gen_ok_next_handler_other:
  assumes ok: "gen_ok w g'" and live: "isSubscribed (gens w g)"
    and ne: "g' \<noteq> g" and refs: "values (gens w g') \<noteq> values (gens w g)"
  shows "gen_ok (next_handler g k v w) g'"
  using ok ne refs live
  by (auto simp: next_handler_def Let_def alloc_def setState_def gen_ok_def emitted_def)

lemma gens_next_handler_fields:
  "ngens (next_handler g k v w) = ngens w
   \<and> values (gens (next_handler g k v w) g') = values (gens w g')
   \<and> keys (gens (next_handler g k v w) g') = keys (gens w g')
   \<and> keyCount (gens (next_handler g k v w) g') = keyCount (gens w g')
   \<and> isSubscribed (gens (next_handler g k v w) g') = isSubscribed (gens w g')
   \<and> attached (gens (next_handler g k v w) g') = attached (gens w g')
   \<and> subscriptions (gens (next_handler g k v w) g') = subscriptions (gens w g')
   \<and> hook (next_handler g k v w) = hook w
   \<and> mounted (next_handler g k v w) = mounted w
   \<and> subscribe_log (next_handler g k v w) = subscribe_log w
   \<and> unsubscribed (next_handler g k v w) = unsubscribed w
   \<and> next_ref w \<le> next_ref (next_handler g k v w)"
  by (simp add: next_handler_def Let_def alloc_def setState_def)

lemma gens_ok_next_handler:
  assumes ok: "gens_ok w" and g: "g < ngens w" and k: "k \<in> set (keys (gens w g))"
  shows "gens_ok (next_handler g k v w)"
proof (cases "isSubscribed (gens w g)")
  case False
  then show ?thesis using ok by (simp add: next_handler_def)
next
  case True
  have "gen_ok (next_handler g k v w) g'" if "g' < ngens w" for g'
  proof (cases "g' = g")
    case True
    then show ?thesis
      using gen_ok_next_handler_same [OF _ \<open>isSubscribed (gens w g)\<close> k] ok g
      by (simp add: gens_ok_def)
  next
    case False
    have r: "values (gens w g') \<noteq> values (gens w g)"
      using ok g that False unfolding gens_ok_def by blast
    have o: "gen_ok w g'" using ok that by (simp add: gens_ok_def)
    show ?thesis
      by (rule gen_ok_next_handler_other [OF o \<open>isSubscribed (gens w g)\<close> False r])
  qed
  then show ?thesis
    using ok by (simp add: gens_ok_def gens_next_handler_fields)
qed

lemma settled_next_handler: "settled n w \<Longrightarrow> settled n (next_handler g k v w)"
  by (simp add: settled_def gens_next_handler_fields)

lemma next_handler_publishes:
  assumes live: "isSubscribed (gens w g)" and np: "k \<noteq> ''__proto__''"
    and pub: "(if hasOwn (emitted w g) k then valueCount (gens w g)
               else Suc (valueCount (gens w g))) = keyCount (gens w g)"
  shows "state (next_handler g k v w) = Ready (next_ref w)"
    and "next_ref (next_handler g k v w) = Suc (next_ref w)"
    and "heap (next_handler g k v w) =
           (heap w)(values (gens w g) := AList.update k v (emitted w g),
                    next_ref w := AList.update k v (emitted w g))"
    and "valueCount (gens (next_handler g k v w) g) = keyCount (gens w g)"
  using pub by (simp_all add: next_handler_live [OF live np])

lemma next_handler_accumulates:
  assumes live: "isSubscribed (gens w g)" and np: "k \<noteq> ''__proto__''"
    and nopub: "(if hasOwn (emitted w g) k then valueCount (gens w g)
               else Suc (valueCount (gens w g))) \<noteq> keyCount (gens w g)"
  shows "state (next_handler g k v w) = state w"
    and "next_ref (next_handler g k v w) = next_ref w"
    and "heap (next_handler g k v w) =
           (heap w)(values (gens w g) := AList.update k v (emitted w g))"
    and "valueCount (gens (next_handler g k v w) g) \<noteq> keyCount (gens w g)"
  using nopub by (simp_all add: next_handler_live [OF live np])

lemma state_ok_next_handler:
  assumes gk: "gens_ok w" and st: "state_ok w" and se: "settled (ngens w - 1) w"
    and g: "g < ngens w" and k: "k \<in> set (keys (gens w g))"
  shows "state_ok (next_handler g k v w)"
proof (cases "isSubscribed (gens w g)")
  case False
  then show ?thesis using st by (simp add: next_handler_def)
next
  case True
  let ?w = "next_handler g k v w"
  have last: "ngens w - Suc 0 = g"
    using se True k g by (cases "g = ngens w - 1") (auto simp: settled_def)
  have pos: "0 < ngens w" using g by simp
  have ok: "gen_ok w g" using gk g by (simp add: gens_ok_def)
  note np = gen_ok_not_proto [OF ok k]
  have ok': "gen_ok ?w g"
    using gen_ok_next_handler_same [OF ok True k] .
  have fresh: "\<And>g'. g' < ngens w \<Longrightarrow> values (gens w g') < next_ref w"
    using gk by (simp add: gens_ok_def gen_ok_def)
  have f: "ngens ?w = ngens w" "\<And>g'. values (gens ?w g') = values (gens w g')"
    "\<And>g'. keys (gens ?w g') = keys (gens w g')"
    "\<And>g'. keyCount (gens ?w g') = keyCount (gens w g')"
    "\<And>g'. isSubscribed (gens ?w g') = isSubscribed (gens w g')"
    by (simp_all add: gens_next_handler_fields)
  let ?n = "if hasOwn (emitted w g) k then valueCount (gens w g) else Suc (valueCount (gens w g))"
  show ?thesis
  proof (cases "?n = keyCount (gens w g)")
    case pub: True
    note p = next_handler_publishes [OF True np pub, of v]
    have vg: "values (gens w g) \<noteq> next_ref w" using fresh [OF g] by simp
    have em: "emitted ?w g = AList.update k v (emitted w g)"
      using vg by (simp add: emitted_def f p(3))
    have hd: "heap ?w (next_ref w) = AList.update k v (emitted w g)"
      by (simp add: p(3))
    have all: "set (map fst (emitted ?w g)) = set (keys (gens w g))"
      using all_emitted_iff [OF ok'] p(4) by (simp add: f)
    have dist: "distinct (map fst (emitted ?w g))"
      using ok' by (simp add: gen_ok_def)
    have nv: "\<And>g'. g' < ngens w \<Longrightarrow> values (gens w g') \<noteq> next_ref w"
      using fresh by fastforce
    have c1: "tri_state (state ?w)" by (simp add: p(1) tri_state_def Ready_def)
    have c2: "\<forall>d. data (state ?w) = Some d \<longrightarrow>
            d < next_ref ?w \<and> (\<forall>g<ngens ?w. values (gens ?w g) \<noteq> d) \<and> 0 < ngens ?w
            \<and> distinct (map fst (heap ?w d))
            \<and> set (map fst (heap ?w d)) = set (keys (gens ?w (ngens ?w - 1)))"
      using nv pos all dist by (simp add: p(1,2) f Ready_def hd em last)
    have c3: "\<exists>d. state ?w = Ready d \<and> heap ?w d = emitted ?w (ngens ?w - 1)"
      by (rule exI [of _ "next_ref w"]) (simp add: p(1) hd em f last)
    show ?thesis
      unfolding state_ok_def using c1 c2 c3 p(4) by (simp add: f last)
  next
    case nopub: False
    note p = next_handler_accumulates [OF True np nopub, of v]
    have notall: "valueCount (gens w g) \<noteq> keyCount (gens w g)"
    proof
      assume e: "valueCount (gens w g) = keyCount (gens w g)"
      then have "set (map fst (emitted w g)) = set (keys (gens w g))"
        using all_emitted_iff [OF ok] by simp
      then have "hasOwn (emitted w g) k" using k by (simp add: hasOwn_def)
      then show False using nopub e by simp
    qed
    have l: "state w = Loading"
      using st last True k pos notall unfolding state_ok_def by fastforce
    have c1: "tri_state (state ?w)" by (simp add: p(1) l tri_state_def Loading_def)
    have c2: "data (state ?w) = None" by (simp add: p(1) l Loading_def)
    show ?thesis
      unfolding state_ok_def using c1 c2 p(4) l by (simp add: f last p(1))
  qed
qed

lemma einv_next_handler:
  assumes "einv w" and "g < ngens w" and "k \<in> set (keys (gens w g))"
  shows "einv (next_handler g k v w)"
  using assms gens_ok_next_handler state_ok_next_handler settled_next_handler
  by (simp add: einv_def gens_next_handler_fields)

lemma unsubscribeAll_fields:
  "ngens (unsubscribeAll g w) = ngens w
   \<and> heap (unsubscribeAll g w) = heap w
   \<and> next_ref (unsubscribeAll g w) = Suc (next_ref w)
   \<and> state (unsubscribeAll g w) = state w
   \<and> hook (unsubscribeAll g w) = hook w
   \<and> mounted (unsubscribeAll g w) = mounted w
   \<and> subscribe_log (unsubscribeAll g w) = subscribe_log w
   \<and> values (gens (unsubscribeAll g w) g') = values (gens w g')
   \<and> keys (gens (unsubscribeAll g w) g') = keys (gens w g')
   \<and> keyCount (gens (unsubscribeAll g w) g') = keyCount (gens w g')
   \<and> valueCount (gens (unsubscribeAll g w) g') = valueCount (gens w g')
   \<and> attached (gens (unsubscribeAll g w) g') = attached (gens w g')
   \<and> isSubscribed (gens (unsubscribeAll g w) g') = (g' \<noteq> g \<and> isSubscribed (gens w g'))"
  by (simp add: unsubscribeAll_def alloc_array_def)

lemma gens_ok_unsubscribeAll: "gens_ok w \<Longrightarrow> gens_ok (unsubscribeAll g w)"
  by (simp add: gens_ok_def gen_ok_def emitted_def unsubscribeAll_fields less_SucI)

lemma settled_unsubscribeAll: "settled n w \<Longrightarrow> settled n (unsubscribeAll g w)"
  by (simp add: settled_def unsubscribeAll_fields)

lemma state_ok_unsubscribeAll: "state_ok w \<Longrightarrow> state_ok (unsubscribeAll g w)"
  by (simp add: state_ok_def emitted_def unsubscribeAll_fields less_SucI)

lemma einv_unsubscribeAll: "einv w \<Longrightarrow> einv (unsubscribeAll g w)"
  by (simp add: einv_def gens_ok_unsubscribeAll settled_unsubscribeAll
      state_ok_unsubscribeAll unsubscribeAll_fields)

lemma gens_ok_setState: "gens_ok (setState st w) = gens_ok w"
  by (simp add: gens_ok_def gen_ok_def emitted_def setState_def)

lemma settled_setState: "settled n (setState st w) = settled n w"
  by (simp add: settled_def setState_def)

lemma einv_error_handler:
  assumes "einv w" and g: "g < ngens w" and k: "k \<in> set (keys (gens w g))"
  shows "einv (error_handler g k e w)"
proof (cases "isSubscribed (gens w g)")
  case False
  then show ?thesis using assms by (simp add: error_handler_def)
next
  case True
  let ?w = "setState (Errored e) (unsubscribeAll g w)"
  have last: "ngens w - Suc 0 = g"
    using assms True by (cases "g = ngens w - 1") (auto simp: einv_def settled_def)
  have s: "state_ok ?w"
    using last
    by (simp add: state_ok_def setState_def unsubscribeAll_fields tri_state_def Errored_def)
  have n: "ngens ?w = ngens w" by (simp add: setState_def unsubscribeAll_fields)
  have "gens_ok ?w" "settled (ngens w - 1) ?w"
    using assms(1)
    by (simp_all add: einv_def gens_ok_setState settled_setState gens_ok_unsubscribeAll
        settled_unsubscribeAll)
  then show ?thesis
    using s True n by (simp add: einv_def error_handler_def)
qed

lemma einv_complete_handler: "einv w \<Longrightarrow> einv (complete_handler g k w)"
  by (simp add: complete_handler_def)

text \<open>Changes that leave the invariant alone.\<close>

lemma einv_frame:
  assumes i: "einv w"
    and st: "state w' = state w" and hp: "heap w' = heap w"
    and nr: "next_ref w \<le> next_ref w'" and ng: "ngens w' = ngens w"
    and vs: "\<And>g. values (gens w' g) = values (gens w g)"
    and ks: "\<And>g. keys (gens w' g) = keys (gens w g)"
    and kc: "\<And>g. keyCount (gens w' g) = keyCount (gens w g)"
    and vc: "\<And>g. valueCount (gens w' g) = valueCount (gens w g)"
    and at: "\<And>g. g < ngens w \<Longrightarrow> set (attached (gens w' g)) \<subseteq> set (keys (gens w g))"
    and lv: "\<And>g. isSubscribed (gens w' g) \<Longrightarrow> isSubscribed (gens w g)"
  shows "einv w'"
proof -
  have em: "\<And>g. emitted w' g = emitted w g"
    by (simp add: emitted_def hp vs)
  have "gen_ok w' g" if "g < ngens w" for g
  proof -
    have "gen_ok w g" using i that by (simp add: einv_def gens_ok_def)
    then show ?thesis
      using at [OF that] nr
      by (simp add: gen_ok_def em ks kc vc vs)
  qed
  then have 1: "gens_ok w'"
    using i by (simp add: einv_def gens_ok_def ng vs)
  have 2: "settled (ngens w' - 1) w'"
    using i lv by (auto simp: einv_def settled_def ng ks)
  have so: "state_ok w" using i by (simp add: einv_def)
  have lastw: "0 < ngens w \<and> isSubscribed (gens w (ngens w - 1)) \<and> keys (gens w (ngens w - 1)) \<noteq> []"
    if "0 < ngens w' \<and> isSubscribed (gens w' (ngens w' - 1)) \<and> keys (gens w' (ngens w' - 1)) \<noteq> []"
    using that lv [of "ngens w - 1"] by (simp add: ng ks)
  have c1: "tri_state (state w')" using so by (simp add: state_ok_def st)
  have c2: "d < next_ref w' \<and> (\<forall>g<ngens w'. values (gens w' g) \<noteq> d) \<and> 0 < ngens w'
            \<and> distinct (map fst (heap w' d))
            \<and> set (map fst (heap w' d)) = set (keys (gens w' (ngens w' - 1)))"
    if "data (state w') = Some d" for d
  proof -
    have d: "data (state w) = Some d" using that by (simp add: st)
    with so have "d < next_ref w \<and> (\<forall>g<ngens w. values (gens w g) \<noteq> d) \<and> 0 < ngens w
            \<and> distinct (map fst (heap w d))
            \<and> set (map fst (heap w d)) = set (keys (gens w (ngens w - 1)))"
      unfolding state_ok_def by blast
    then show ?thesis using nr by (simp add: ng vs hp ks)
  qed
  have c3: "\<exists>d. state w' = Ready d \<and> heap w' d = emitted w' (ngens w' - 1)"
    if a: "0 < ngens w' \<and> isSubscribed (gens w' (ngens w' - 1)) \<and>
       keys (gens w' (ngens w' - 1)) \<noteq> []"
      and e: "valueCount (gens w' (ngens w' - 1)) = keyCount (gens w' (ngens w' - 1))"
  proof -
    have "valueCount (gens w (ngens w - 1)) = keyCount (gens w (ngens w - 1))"
      using e by (simp add: ng vc kc)
    with lastw [OF a] so have "\<exists>d. state w = Ready d \<and> heap w d = emitted w (ngens w - 1)"
      unfolding state_ok_def by blast
    then show ?thesis by (simp add: st hp em ng)
  qed
  have c4: "state w' = Loading"
    if a: "0 < ngens w' \<and> isSubscribed (gens w' (ngens w' - 1)) \<and>
       keys (gens w' (ngens w' - 1)) \<noteq> []"
      and e: "valueCount (gens w' (ngens w' - 1)) \<noteq> keyCount (gens w' (ngens w' - 1))"
  proof -
    have "valueCount (gens w (ngens w - 1)) \<noteq> keyCount (gens w (ngens w - 1))"
      using e by (simp add: ng vc kc)
    with lastw [OF a] so have "state w = Loading"
      unfolding state_ok_def by blast
    then show ?thesis by (simp add: st)
  qed
  have 3: "state_ok w'"
    unfolding state_ok_def using c1 c2 c3 c4 by blast
  show ?thesis using 1 2 3 by (simp add: einv_def)
qed

lemma einv_gen_facts:
  assumes "einv w" and "g < ngens w"
  shows "set (attached (gens w g)) \<subseteq> set (keys (gens w g))"
  using assms by (simp_all add: einv_def gens_ok_def gen_ok_def)

lemma einv_push_subscription:
  assumes "einv w" and "g < ngens w" and "k \<in> set (keys (gens w g))"
  shows "einv (push_subscription g r k w)"
proof (rule einv_frame [OF assms(1)])
  fix g' assume g': "g' < ngens w"
  show "set (attached (gens (push_subscription g r k w) g')) \<subseteq> set (keys (gens w g'))"
    using einv_gen_facts(1) [OF assms(1) g'] assms(3)
    by (auto simp: push_subscription_def)
qed (auto simp: push_subscription_def split: if_splits)

lemma einv_same_gens:
  assumes "einv w" and "state w' = state w" and "heap w' = heap w"
    and "next_ref w \<le> next_ref w'" and "ngens w' = ngens w" and "gens w' = gens w"
  shows "einv w'"
proof (rule einv_frame [OF assms(1)])
  fix g assume g: "g < ngens w"
  show "set (attached (gens w' g)) \<subseteq> set (keys (gens w g))"
    using einv_gen_facts(1) [OF assms(1) g] by (simp add: assms(6))
qed (simp_all add: assms)

lemma einv_subscribe_log: "einv w \<Longrightarrow> einv (w\<lparr>subscribe_log := l\<rparr>)"
  by (rule einv_same_gens) simp_all

lemma einv_hook: "einv w \<Longrightarrow> einv (w\<lparr>hook := h\<rparr>)"
  by (rule einv_same_gens) simp_all

lemma einv_mounted: "einv w \<Longrightarrow> einv (w\<lparr>mounted := m\<rparr>)"
  by (rule einv_same_gens) simp_all

lemma einv_next_ref: "einv w \<Longrightarrow> einv (w\<lparr>next_ref := Suc (next_ref w)\<rparr>)"
  by (rule einv_same_gens) simp_all

lemma start_generation_eq:
  "start_generation ks w =
     w\<lparr>arrays := (arrays w)(next_ref w := []),
       heap := (heap w)(Suc (next_ref w) := []), next_ref := Suc (Suc (next_ref w)),
       gens := (gens w)(ngens w := \<lparr>isSubscribed = True, subscriptions = next_ref w,
                   values = Suc (next_ref w), valueCount = 0, keys = ks, keyCount = length ks,
                   attached = []\<rparr>),
       ngens := Suc (ngens w), state := Loading\<rparr>"
  by (simp add: start_generation_def alloc_array_def alloc_def setState_def)

lemma gens_ok_start_generation:
  assumes ok: "gens_ok w" and d: "distinct ks" and np: "''__proto__'' \<notin> set ks"
  shows "gens_ok (start_generation ks w)"
proof -
  let ?w = "start_generation ks w"
  have fresh: "\<And>g. g < ngens w \<Longrightarrow> values (gens w g) < next_ref w"
    using ok by (simp add: gens_ok_def gen_ok_def)
  have old: "gen_ok ?w g" if "g < ngens w" for g
  proof -
    have "gen_ok w g" using ok that by (simp add: gens_ok_def)
    then show ?thesis
      using fresh [OF that] that
      by (simp add: gen_ok_def emitted_def start_generation_eq)
  qed
  have new: "gen_ok ?w (ngens w)"
    using d np by (simp add: gen_ok_def emitted_def start_generation_eq)
  have all: "gen_ok ?w g" if "g < Suc (ngens w)" for g
    using that old new by (cases "g = ngens w") simp_all
  have refs: "g = g'" if "g < Suc (ngens w)" "g' < Suc (ngens w)"
    "values (gens ?w g) = values (gens ?w g')" for g g'
  proof -
    have inj: "\<And>a b. a < ngens w \<Longrightarrow> b < ngens w \<Longrightarrow>
       values (gens w a) = values (gens w b) \<Longrightarrow> a = b"
      using ok unfolding gens_ok_def by blast
    have v: "\<And>a. values (gens ?w a)
        = (if a = ngens w then Suc (next_ref w) else values (gens w a))"
      by (simp add: start_generation_eq)
    show ?thesis
    proof (cases "g = ngens w")
      case True
      show ?thesis
      proof (cases "g' = ngens w")
        case True
        then show ?thesis using \<open>g = ngens w\<close> by simp
      next
        case False
        then have "g' < ngens w" using that(2) by simp
        from fresh [OF this] show ?thesis using that(3) True False by (simp add: v)
      qed
    next
      case False
      then have gl: "g < ngens w" using that(1) by simp
      show ?thesis
      proof (cases "g' = ngens w")
        case True
        from fresh [OF gl] show ?thesis using that(3) True False by (simp add: v)
      next
        case g'n: False
        then have "g' < ngens w" using that(2) by simp
        from inj [OF gl this] show ?thesis using that(3) False g'n by (simp add: v)
      qed
    qed
  qed
  have n: "ngens ?w = Suc (ngens w)" by (simp add: start_generation_eq)
  show ?thesis
    unfolding gens_ok_def n using all refs by blast
qed

lemma settled_start_generation:
  "settled (ngens w) w \<Longrightarrow> settled (ngens w) (start_generation ks w)"
  by (simp add: settled_def start_generation_eq)

lemma state_ok_start_generation: "state_ok (start_generation ks w)"
  by (simp add: state_ok_def start_generation_eq tri_state_def Loading_def)

lemma einv_start_generation:
  assumes "einv w" and "settled (ngens w) w" and "distinct ks" and "''__proto__'' \<notin> set ks"
  shows "einv (start_generation ks w)"
  using assms gens_ok_start_generation settled_start_generation state_ok_start_generation
  by (simp add: einv_def) (simp add: start_generation_eq)

text \<open>The empty object published for an object without keys.\<close>

lemma einv_publish_empty:
  assumes i: "einv w" and n: "0 < ngens w" and e: "keys (gens w (ngens w - 1)) = []"
  shows "einv (setState (Ready (next_ref w)) (snd (alloc [] w)))"
proof -
  let ?w = "setState (Ready (next_ref w)) (snd (alloc [] w))"
  have eq: "?w = w\<lparr>heap := (heap w)(next_ref w := []), next_ref := Suc (next_ref w),
                    state := Ready (next_ref w)\<rparr>"
    by (simp add: alloc_def setState_def)
  have fresh: "\<And>g. g < ngens w \<Longrightarrow> values (gens w g) < next_ref w"
    using i by (simp add: einv_def gens_ok_def gen_ok_def)
  have "gen_ok ?w g" if "g < ngens w" for g
  proof -
    have "gen_ok w g" using i that by (simp add: einv_def gens_ok_def)
    then show ?thesis unfolding eq using fresh [OF that] by (simp add: gen_ok_def emitted_def)
  qed
  then have 1: "gens_ok ?w" unfolding eq using i by (simp add: einv_def gens_ok_def)
  have 2: "settled (ngens ?w - 1) ?w" unfolding eq using i by (simp add: einv_def settled_def)
  have nv: "\<And>g. g < ngens w \<Longrightarrow> values (gens w g) \<noteq> next_ref w"
    using fresh by fastforce
  have 3: "state_ok ?w"
    unfolding eq using n e nv by (simp add: state_ok_def tri_state_def Ready_def)
  show ?thesis using 1 2 3 by (simp add: einv_def)
qed

lemma error_handler_fields:
  "ngens (error_handler g k e w) = ngens w
   \<and> keys (gens (error_handler g k e w) g') = keys (gens w g')
   \<and> hook (error_handler g k e w) = hook w
   \<and> mounted (error_handler g k e w) = mounted w
   \<and> (isSubscribed (gens (error_handler g k e w) g') \<longrightarrow> isSubscribed (gens w g'))"
  by (simp add: error_handler_def setState_def unsubscribeAll_fields)

lemma loop_inv_next_handler:
  "loop_inv g n ks h m w \<Longrightarrow> g < n \<Longrightarrow> k \<in> set ks \<Longrightarrow> loop_inv g n ks h m (next_handler g k v w)"
  by (simp add: loop_inv_def einv_next_handler gens_next_handler_fields)

lemma loop_inv_error_handler:
  "loop_inv g n ks h m w \<Longrightarrow> g < n \<Longrightarrow> k \<in> set ks \<Longrightarrow> loop_inv g n ks h m (error_handler g k e w)"
  by (simp add: loop_inv_def einv_error_handler error_handler_fields)

lemma loop_inv_complete_handler:
  "loop_inv g n ks h m w \<Longrightarrow> loop_inv g n ks h m (complete_handler g k w)"
  by (simp add: complete_handler_def)

lemma loop_inv_log:
  "loop_inv g n ks h m w \<Longrightarrow> loop_inv g n ks h m (w\<lparr>subscribe_log := l\<rparr>)"
  by (simp add: loop_inv_def einv_subscribe_log)

lemma loop_inv_push:
  "loop_inv g n ks h m w \<Longrightarrow> g < n \<Longrightarrow> k \<in> set ks \<Longrightarrow>
   loop_inv g n ks h m (push_subscription g r k w)"
  using einv_push_subscription [where w = w and g = g and k = k and r = r]
  by (simp add: loop_inv_def) (simp add: push_subscription_def)

lemma loop_inv_subscribe_keys:
  assumes "loop_inv g n K h m w" and "g < n" and "set ks \<subseteq> set K"
  shows "case subscribe_keys g obj ks w of
           Inl (e, w1) \<Rightarrow> loop_inv g n K h m w1 | Inr w1 \<Rightarrow> loop_inv g n K h m w1"
  using assms(1,3)
proof (induction ks arbitrary: w)
  case Nil
  then show ?case by simp
next
  case (Cons k ks)
  have k: "k \<in> set K" and ks: "set ks \<subseteq> set K" using Cons.prems(2) by simp_all
  show ?case
  proof (cases "isSubscribed (gens w g)")
    case False
    then show ?thesis using Cons.IH [OF Cons.prems(1) ks] by simp
  next
    case True
    let ?w = "w\<lparr>subscribe_log := subscribe_log w @ [(g, k)]\<rparr>"
    have s: "case subscribe (get_source obj k) (next_handler g k) (error_handler g k)
                 (complete_handler g k) ?w of
               Inl (e, s1) \<Rightarrow> loop_inv g n K h m s1 | Inr (u, s1) \<Rightarrow> loop_inv g n K h m s1"
      by (rule subscribe_preserves)
        (simp_all add: loop_inv_next_handler loop_inv_error_handler
          loop_inv_complete_handler loop_inv_log Cons.prems(1) assms(2) k)
    show ?thesis
    proof (cases "subscribe (get_source obj k) (next_handler g k) (error_handler g k)
                 (complete_handler g k) ?w")
      case (Inl a)
      then show ?thesis using s True by (cases a) simp
    next
      case (Inr b)
      obtain u w1 where b: "b = (u, w1)" by (cases b)
      have "loop_inv g n K h m (push_subscription g (subscriptions (gens w g)) k w1)"
        using s Inr b loop_inv_push assms(2) k by simp
      from Cons.IH [OF this ks] show ?thesis using Inr b True by simp
    qed
  qed
qed

lemma einv_effect:
  assumes i: "einv w" and q: "settled (ngens w) w" and d: "distinct (map fst obj)"
    and np: "''__proto__'' \<notin> set (map fst obj)"
  shows "case effect obj w of
           Inl (e, w1) \<Rightarrow> einv w1 \<and> ngens w1 = Suc (ngens w) \<and> hook w1 = hook w
         | Inr (c, w1) \<Rightarrow> einv w1 \<and> ngens w1 = Suc (ngens w) \<and> hook w1 = hook w
             \<and> mounted w1 = mounted w
             \<and> (c = Some (ngens w) \<or> (c = None \<and> keys (gens w1 (ngens w)) = []))"
proof -
  let ?ks = "map fst obj"
  let ?w1 = "start_generation ?ks w"
  have f: "ngens ?w1 = Suc (ngens w)" "keys (gens ?w1 (ngens w)) = ?ks" "hook ?w1 = hook w"
    "mounted ?w1 = mounted w"
    by (simp_all add: start_generation_eq)
  have i1: "einv ?w1" using einv_start_generation [OF i q d np] .
  show ?thesis
  proof (cases "obj = []")
    case True
    have "einv (setState (Ready (next_ref ?w1)) (snd (alloc [] ?w1)))"
      using einv_publish_empty [OF i1] f True by simp
    then show ?thesis
      using True f
      by (simp add: effect_def Let_def) (simp add: alloc_def setState_def)
  next
    case False
    have l: "loop_inv (ngens w) (Suc (ngens w)) ?ks (hook w) (mounted w) ?w1"
      using i1 f by (simp add: loop_inv_def)
    from loop_inv_subscribe_keys [OF l _ subset_refl, of obj]
    show ?thesis
      using False by (auto simp: effect_def Let_def loop_inv_def split: sum.splits)
  qed
qed

lemma settled_after_cleanup:
  assumes "hinv w" and "mounted w" and "hook w = Some h"
  shows "settled (ngens w) (case cleanup h of Some g \<Rightarrow> unsubscribeAll g w | None \<Rightarrow> w)"
  using assms
  by (auto simp: hinv_def cleanup_of_def settled_def unsubscribeAll_fields
      split: option.splits)

lemma inv_commit_effect:
  assumes i: "einv w" and h: "hinv w" and m: "mounted w"
    and d: "distinct (map fst (entries ob))"
    and np: "''__proto__'' \<notin> set (map fst (entries ob))"
  shows "einv (commit_effect ob w) \<and> hinv (commit_effect ob w)"
proof (cases "hook w")
  case None
  then show ?thesis using i h by (simp add: commit_effect_def)
next
  case (Some hs)
  show ?thesis
  proof (cases "effect_deps hs = Some (obj_ref ob)")
    case True
    then show ?thesis using i h Some by (simp add: commit_effect_def)
  next
    case False
    let ?w0 = "case cleanup hs of Some g \<Rightarrow> unsubscribeAll g w | None \<Rightarrow> w"
    have n0: "ngens ?w0 = ngens w" by (simp add: unsubscribeAll_fields split: option.splits)
    have i0: "einv ?w0" using i einv_unsubscribeAll by (simp split: option.splits)
    have q0: "settled (ngens ?w0) ?w0"
      using settled_after_cleanup [OF h m Some] n0 by simp
    note e = einv_effect [OF i0 q0 d np]
    show ?thesis
    proof (cases "effect (entries ob) ?w0")
      case (Inl a)
      obtain er w1 where a: "a = (er, w1)" by (cases a)
      have "einv w1" using e Inl a by simp
      then show ?thesis
        using Some False Inl a
        by (simp add: commit_effect_def einv_hook einv_mounted hinv_def)
    next
      case (Inr b)
      obtain c w1 where b: "b = (c, w1)" by (cases b)
      have w1: "einv w1" "ngens w1 = Suc (ngens w)"
        "c = Some (ngens w) \<or> (c = None \<and> keys (gens w1 (ngens w)) = [])"
        using e Inr b n0 by simp_all
      let ?w2 = "w1\<lparr>hook := Some (hs\<lparr>effect_deps := Some (obj_ref ob), cleanup := c\<rparr>)\<rparr>"
      have c2: "commit_effect ob w = ?w2"
        using Some False Inr b by (simp add: commit_effect_def)
      have i2: "einv ?w2" using w1(1) by (rule einv_hook)
      have "cleanup_of ?w2 = Some g"
        if "g < ngens ?w2" "isSubscribed (gens ?w2 g)" "keys (gens ?w2 g) \<noteq> []" for g
      proof -
        have "settled (ngens w1 - 1) w1" using w1(1) by (simp add: einv_def)
        then have "g = ngens w" using that w1(2)
          by (cases "g = ngens w") (auto simp: settled_def)
        then show ?thesis using w1(3) that by (auto simp: cleanup_of_def)
      qed
      then have "hinv ?w2" unfolding hinv_def by blast
      then show ?thesis using i2 c2 by simp
    qed
  qed
qed

lemma useObservables_frame:
  assumes "useObservables ps tp f w = (r, ob, w1)"
  shows "state w1 = state w" "heap w1 = heap w" "next_ref w \<le> next_ref w1"
    "ngens w1 = ngens w" "gens w1 = gens w" "mounted w1 = mounted w"
    "cleanup_of w1 = cleanup_of w" "r = state w"
    "subscribe_log w1 = subscribe_log w" "unsubscribed w1 = unsubscribed w"
  using assms
  by (auto simp: useObservables_def new_array_def Let_def cleanup_of_def split: option.splits)

lemma WithObservables_frame:
  assumes "WithObservables ra obs w = (r, ob, w1)"
  shows "state w1 = state w" "heap w1 = heap w" "next_ref w \<le> next_ref w1"
    "ngens w1 = ngens w" "gens w1 = gens w" "mounted w1 = mounted w"
    "cleanup_of w1 = cleanup_of w"
    "subscribe_log w1 = subscribe_log w" "unsubscribed w1 = unsubscribed w"
  using assms
  by (auto simp: WithObservables_def Let_def cleanup_of_def split: option.splits)

lemma hinv_frame:
  assumes "hinv w" and "ngens w1 = ngens w" and "gens w1 = gens w"
    and "mounted w1 = mounted w" and "cleanup_of w1 = cleanup_of w"
  shows "hinv w1"
  using assms by (simp add: hinv_def)

lemma einv_unmount: "einv w \<Longrightarrow> einv (unmount w)"
  by (auto simp: unmount_def einv_mounted einv_unsubscribeAll split: option.splits)

lemma hinv_unmount: "hinv (unmount w)"
  by (simp add: unmount_def hinv_def split: option.splits)

lemma fire_fields:
  "ngens (fire (next_handler g k) (error_handler g k) (complete_handler g k) sg w) = ngens w
   \<and> keys (gens (fire (next_handler g k) (error_handler g k) (complete_handler g k) sg w) g')
       = keys (gens w g')
   \<and> hook (fire (next_handler g k) (error_handler g k) (complete_handler g k) sg w) = hook w
   \<and> mounted (fire (next_handler g k) (error_handler g k) (complete_handler g k) sg w)
       = mounted w
   \<and> (isSubscribed
         (gens (fire (next_handler g k) (error_handler g k) (complete_handler g k) sg w) g')
        \<longrightarrow> isSubscribed (gens w g'))"
  by (cases sg) (simp_all add: gens_next_handler_fields error_handler_fields complete_handler_def)

lemma einv_fire:
  assumes "einv w" and "g < ngens w" and "k \<in> set (keys (gens w g))"
  shows "einv (fire (next_handler g k) (error_handler g k) (complete_handler g k) sg w)"
  using assms
  by (cases sg) (simp_all add: einv_next_handler einv_error_handler einv_complete_handler)

lemma hinv_fire:
  assumes "hinv w"
  shows "hinv (fire (next_handler g k) (error_handler g k) (complete_handler g k) sg w)"
  using assms fire_fields [of g k sg w]
  by (auto simp: hinv_def cleanup_of_def)

lemma hook_effect:
  "case effect obj w of Inl (e, w1) \<Rightarrow> hook w1 = hook w | Inr (c, w1) \<Rightarrow> hook w1 = hook w"
proof -
  have s: "hook (start_generation (map fst obj) w) = hook w"
    by (simp add: start_generation_eq)
  have k: "case subscribe_keys g obj ks w0 of
             Inl (e, w1) \<Rightarrow> hook w1 = hook w0 | Inr w1 \<Rightarrow> hook w1 = hook w0" for g ks w0
  proof (induction ks arbitrary: w0)
    case Nil
    then show ?case by simp
  next
    case (Cons k ks)
    let ?w = "w0\<lparr>subscribe_log := subscribe_log w0 @ [(g, k)]\<rparr>"
    have p: "case subscribe (get_source obj k) (next_handler g k) (error_handler g k)
                 (complete_handler g k) ?w of
               Inl (e, s1) \<Rightarrow> hook s1 = hook w0 | Inr (u, s1) \<Rightarrow> hook s1 = hook w0"
      by (rule subscribe_preserves)
        (simp_all add: gens_next_handler_fields error_handler_fields complete_handler_def)
    show ?case
    proof (cases "subscribe (get_source obj k) (next_handler g k) (error_handler g k)
                 (complete_handler g k) ?w")
      case (Inl a)
      then show ?thesis using p Cons.IH [of w0] by (cases a) simp
    next
      case (Inr b)
      obtain u w1 where b: "b = (u, w1)" by (cases b)
      have "hook (push_subscription g (subscriptions (gens w0 g)) k w1) = hook w0"
        using p Inr b by (simp add: push_subscription_def)
      then show ?thesis
        using Cons.IH [of "push_subscription g (subscriptions (gens w0 g)) k w1"]
          Cons.IH [of w0] Inr b
        by (auto split: sum.splits)
    qed
  qed
  show ?thesis
    using k [where g = "ngens w" and ks = "map fst obj"
        and ?w0.0 = "start_generation (map fst obj) w"] s
    by (auto simp: effect_def Let_def alloc_def setState_def split: sum.splits)
qed

lemma memo_ok_commit_effect: "memo_ok w \<Longrightarrow> memo_ok (commit_effect ob w)"
proof (cases "hook w")
  case None
  assume "memo_ok w"
  then show ?thesis using None by (simp add: commit_effect_def)
next
  case (Some h)
  assume m: "memo_ok w"
  show ?thesis
    using m Some
    by (auto simp: commit_effect_def memo_ok_def split: sum.splits)
qed

lemma memo_ok_unmount: "memo_ok w \<Longrightarrow> memo_ok (unmount w)"
  by (auto simp: unmount_def memo_ok_def unsubscribeAll_fields split: option.splits)

lemma memo_ok_fire:
  "memo_ok w \<Longrightarrow>
   memo_ok (fire (next_handler g k) (error_handler g k) (complete_handler g k) sg w)"
  by (simp add: memo_ok_def fire_fields)

lemma useObservables_memo:
  assumes "useObservables ps tp f w = (r, ob, w1)" and "memo_ok w"
    and "wf_observables (f ps)" and "plain_observables (f ps)"
  shows "memo_ok w1 \<and> wf_observables ob \<and> plain_observables ob"
  using assms
  by (auto simp: useObservables_def new_array_def Let_def memo_ok_def split: option.splits if_splits)

lemma WithObservables_memo:
  assumes "WithObservables ra obs w = (r, ob, w1)" and "memo_ok w"
    and "wf_observables obs" and "plain_observables obs"
  shows "memo_ok w1 \<and> wf_observables ob \<and> plain_observables ob"
  using assms
  by (auto simp: WithObservables_def Let_def memo_ok_def split: option.splits if_splits)

lemma inv_step:
  assumes "inv w" and "wf_event ev" and "plain_event ev"
  shows "inv (step ev w)"
proof (cases ev)
  case (Render ps tp f)
  show ?thesis
  proof (cases "mounted w")
    case False
    then show ?thesis using assms Render by simp
  next
    case True
    obtain r ob w1 where u: "useObservables ps tp f w = (r, ob, w1)"
      by (cases "useObservables ps tp f w") auto
    note fr = useObservables_frame [OF u]
    have i1: "einv w1"
      using assms(1) by (auto simp: inv_def intro: einv_same_gens [OF _ fr(1,2,3,4,5)])
    have h1: "hinv w1"
      using assms(1) hinv_frame [OF _ fr(4,5,6,7)] by (simp add: inv_def)
    have m1: "memo_ok w1" "distinct (map fst (entries ob))"
      "''__proto__'' \<notin> set (map fst (entries ob))"
      using useObservables_memo [OF u] assms Render
      by (simp_all add: inv_def wf_observables_def plain_observables_def)
    have "mounted w1" using True fr(6) by simp
    from inv_commit_effect [OF i1 h1 this m1(2,3)] memo_ok_commit_effect [OF m1(1), of ob]
    show ?thesis using Render True u by (simp add: inv_def)
  qed
next
  case (RenderComponent ra obs)
  show ?thesis
  proof (cases "mounted w")
    case False
    then show ?thesis using assms RenderComponent by simp
  next
    case True
    obtain r ob w1 where u: "WithObservables ra obs w = (r, ob, w1)"
      by (cases "WithObservables ra obs w") auto
    note fr = WithObservables_frame [OF u]
    have i1: "einv w1"
      using assms(1) by (auto simp: inv_def intro: einv_same_gens [OF _ fr(1,2,3,4,5)])
    have h1: "hinv w1"
      using assms(1) hinv_frame [OF _ fr(4,5,6,7)] by (simp add: inv_def)
    have m1: "memo_ok w1" "distinct (map fst (entries ob))"
      "''__proto__'' \<notin> set (map fst (entries ob))"
      using WithObservables_memo [OF u] assms RenderComponent
      by (simp_all add: inv_def wf_observables_def plain_observables_def)
    have "mounted w1" using True fr(6) by simp
    from inv_commit_effect [OF i1 h1 this m1(2,3)] memo_ok_commit_effect [OF m1(1), of ob]
    have c: "inv (commit_effect ob w1)" by (simp add: inv_def)
    have "inv (unmount w1)"
      using i1 m1(1) by (simp add: inv_def einv_unmount hinv_unmount memo_ok_unmount)
    then show ?thesis using c RenderComponent True u by (cases r) simp_all
  qed
next
  case Unmount
  then show ?thesis
    using assms(1) by (simp add: inv_def einv_unmount hinv_unmount memo_ok_unmount)
next
  case (Emit g k sg)
  show ?thesis
  proof (cases "g < ngens w \<and> k \<in> set (attached (gens w g))")
    case False
    then show ?thesis using assms Emit by auto
  next
    case True
    then have "k \<in> set (keys (gens w g))"
      using einv_gen_facts(1) [of w g] assms(1) by (auto simp: inv_def)
    then show ?thesis
      using assms(1) True Emit by (simp add: inv_def einv_fire hinv_fire memo_ok_fire)
  qed
qed

lemma inv_init: "inv init_world"
  by (simp add: inv_def einv_def gens_ok_def settled_def state_ok_def hinv_def memo_ok_def
      init_world_def tri_state_def Loading_def)

lemma inv_run_from: "inv w \<Longrightarrow> wf_trace evs \<Longrightarrow> plain_trace evs \<Longrightarrow> inv (run evs w)"
  unfolding run_def wf_trace_def plain_trace_def
  by (induction evs arbitrary: w) (simp_all add: inv_step)

lemma inv_run: "wf_trace evs \<Longrightarrow> plain_trace evs \<Longrightarrow> inv (run evs init_world)"
  by (rule inv_run_from [OF inv_init])

section \<open>The state is always one of the three\<close>




















section \<open>Cancellation and errors\<close>

lemma subscribe_keys_cancelled: "\<not> isSubscribed (gens w g) \<Longrightarrow> subscribe_keys g obj ks w = Inr w"
  by (induction ks) simp_all

text \<open>
  C1. Once the subscriptions of generation \<open>g\<close> have been cancelled, by \<open>unsubscribeAll\<close>
  itself, by an error accepted in \<open>g\<close>, by unmounting, or by a render that starts the next
  generation, every later call of a handler of \<open>g\<close> returns the world as it found it,
  whatever happened in between (\<open>evs\<close>) and whether or not the producer has detached: the
  published state is not touched.
\<close>

theorem cancelled_generation_is_inert:
  assumes "g < ngens w"
  shows "(w1 = unsubscribeAll g w
            \<or> (isSubscribed (gens w g) \<and> w1 = error_handler g k0 e0 w)
            \<or> (hook w = Some h \<and> cleanup h = Some g \<and> w1 = unmount w)
            \<or> (hook w = Some h \<and> cleanup h = Some g \<and> w1 = step ev w \<and> ngens w1 \<noteq> ngens w))
          \<longrightarrow> next_handler g k v (run evs w1) = run evs w1
            \<and> error_handler g k e (run evs w1) = run evs w1
            \<and> complete_handler g k (run evs w1) = run evs w1
            \<and> state (step (Emit g k sg) (run evs w1)) = state (run evs w1)"
proof
  assume a: "w1 = unsubscribeAll g w
            \<or> (isSubscribed (gens w g) \<and> w1 = error_handler g k0 e0 w)
            \<or> (hook w = Some h \<and> cleanup h = Some g \<and> w1 = unmount w)
            \<or> (hook w = Some h \<and> cleanup h = Some g \<and> w1 = step ev w \<and> ngens w1 \<noteq> ngens w)"
  have "cancelled g w1"
    using a assms unsubscribeAll_cancels error_handler_cancels unmount_cancels step_replaces
    by blast
  then have "cancelled g (run evs w1)" by (rule cancelled_run)
  from cancelled_inert [OF this] show "next_handler g k v (run evs w1) = run evs w1
            \<and> error_handler g k e (run evs w1) = run evs w1
            \<and> complete_handler g k (run evs w1) = run evs w1
            \<and> state (step (Emit g k sg) (run evs w1)) = state (run evs w1)"
    by simp
qed

theorem cancelled_generation_is_inert_witness:
  "0 < ngens waiting
   \<and> state (step (Emit 0 ''second'' (Next (Str ''late'')))
         (run [Emit 0 ''first'' (Next (Str ''again''))] (unsubscribeAll 0 waiting)))
       = state (run [Emit 0 ''first'' (Next (Str ''again''))] (unsubscribeAll 0 waiting))
   \<and> isSubscribed (gens waiting 0)
   \<and> next_handler 0 ''first'' (Str ''late'')
         (run [] (error_handler 0 ''second'' (Err 1) waiting))
       = run [] (error_handler 0 ''second'' (Err 1) waiting)
   \<and> cleanup (the (hook waiting)) = Some 0
   \<and> error_handler 0 ''second'' (Err 2) (run [] (unmount waiting)) = run [] (unmount waiting)
   \<and> 0 < ngens item1
   \<and> cleanup (the (hook item1)) = Some 0
   \<and> ngens (step (Render [(''id'', Num 2)] (Some [''id'']) itemFor) item1) \<noteq> ngens item1
   \<and> next_handler 0 ''item'' (Str ''stale'')
         (run [] (step (Render [(''id'', Num 2)] (Some [''id'']) itemFor) item1))
       = run [] (step (Render [(''id'', Num 2)] (Some [''id'']) itemFor) item1)"
proof -
  have g: "0 < ngens waiting" by code_simp
  have l: "isSubscribed (gens waiting 0)" by code_simp
  have h: "hook waiting = Some (the (hook waiting))" by code_simp
  have c: "cleanup (the (hook waiting)) = Some 0" by code_simp
  have g1: "0 < ngens item1" by code_simp
  have h1: "hook item1 = Some (the (hook item1))" by code_simp
  have c1: "cleanup (the (hook item1)) = Some 0" by code_simp
  have n1: "ngens (step (Render [(''id'', Num 2)] (Some [''id'']) itemFor) item1) \<noteq> ngens item1"
    by code_simp
  show ?thesis
    using g l h c g1 h1 c1 n1
      cancelled_generation_is_inert [OF g, where ?w1.0 = "unsubscribeAll 0 waiting"
        and evs = "[Emit 0 ''first'' (Next (Str ''again''))]" and k = "''second''"
        and sg = "Next (Str ''late'')"]
      cancelled_generation_is_inert [OF g,
        where ?w1.0 = "error_handler 0 ''second'' (Err 1) waiting"
        and ?k0.0 = "''second''" and ?e0.0 = "Err 1"
        and evs = "[]" and k = "''first''" and v = "Str ''late''"]
      cancelled_generation_is_inert [OF g, where ?w1.0 = "unmount waiting"
        and h = "the (hook waiting)" and evs = "[]" and k = "''second''" and e = "Err 2"]
      cancelled_generation_is_inert [OF g1,
        where ?w1.0 = "step (Render [(''id'', Num 2)] (Some [''id'']) itemFor) item1"
        and ev = "Render [(''id'', Num 2)] (Some [''id'']) itemFor"
        and h = "the (hook item1)" and evs = "[]" and k = "''item''" and v = "Str ''stale''"]
    by simp
qed

text \<open>
  What the error handler of a live generation does: it calls the \<open>Unsubscribe\<close>s in the
  array \<open>subscriptions\<close> is bound to, publishes
  \<open>{isLoading: false, data: null, error: e}\<close>, and from then on every handler of the
  generation leaves the world as it is and a subscription loop still running for it
  subscribes to nothing more.
\<close>

lemma error_handler_live:
  assumes "g < ngens w" and "isSubscribed (gens w g)"
  shows "state (error_handler g k e w) = \<lparr>isLoading = False, data = None, error = Some e\<rparr>"
    and "unsubscribed (error_handler g k e w)
         = unsubscribed w @ map (Pair g) (arrays w (subscriptions (gens w g)))"
    and "next_handler g k' v (run evs (error_handler g k e w)) = run evs (error_handler g k e w)"
    and "error_handler g k' e' (run evs (error_handler g k e w))
         = run evs (error_handler g k e w)"
    and "subscribe_keys g obj ks (run evs (error_handler g k e w))
         = Inr (run evs (error_handler g k e w))"
proof -
  let ?w = "error_handler g k e w"
  have c: "cancelled g (run evs ?w)"
    using error_handler_cancels [OF assms] by (rule cancelled_run)
  show "state ?w = \<lparr>isLoading = False, data = None, error = Some e\<rparr>"
    "unsubscribed ?w = unsubscribed w @ map (Pair g) (arrays w (subscriptions (gens w g)))"
    using assms(2)
    by (simp_all add: error_handler_def setState_def unsubscribeAll_def alloc_array_def
        Errored_def)
  show "subscribe_keys g obj ks (run evs ?w) = Inr (run evs ?w)"
    using c by (simp add: subscribe_keys_cancelled cancelled_def)
  show "next_handler g k' v (run evs ?w) = run evs ?w"
    "error_handler g k' e' (run evs ?w) = run evs ?w"
    using cancelled_inert [OF c] by simp_all
qed


section \<open>An object without keys\<close>

lemma effect_empty:
  "effect [] w =
     Inr (None, w\<lparr>arrays := (arrays w)(next_ref w := []),
                   heap := (heap w)(Suc (next_ref w) := [], Suc (Suc (next_ref w)) := []),
                   next_ref := Suc (Suc (Suc (next_ref w))),
                   gens := (gens w)(ngens w := \<lparr>isSubscribed = True,
                     subscriptions = next_ref w, values = Suc (next_ref w), valueCount = 0,
                     keys = [], keyCount = 0, attached = []\<rparr>),
                   ngens := Suc (ngens w),
                   state := Ready (Suc (Suc (next_ref w)))\<rparr>)"
  by (simp add: effect_def start_generation_eq alloc_def setState_def)

text \<open>
  C8. For an object without keys the effect publishes
  \<open>{isLoading: false, data: {}, error: null}\<close>, \<open>data\<close> being a new empty object, before it
  returns; it returns no cleanup, the adapter's \<open>subscribe\<close> is not called (the log of its
  calls is as before), no \<open>Unsubscribe\<close> is called, and the generation holds no
  subscription: no callback was handed out and its array \<open>subscriptions\<close> is empty. So it
  is after the first render of \<open>useObservables\<close> and of \<open>WithObservables\<close>.
\<close>

theorem empty_observables_ready:
  assumes "entries ob = []"
  shows "(\<exists>w1. effect (entries ob) w = Inr (None, w1)
            \<and> state w1
                = \<lparr>isLoading = False, data = Some (Suc (Suc (next_ref w))), error = None\<rparr>
            \<and> heap w1 (Suc (Suc (next_ref w))) = []
            \<and> subscribe_log w1 = subscribe_log w
            \<and> unsubscribed w1 = unsubscribed w
            \<and> ngens w1 = Suc (ngens w)
            \<and> attached (gens w1 (ngens w)) = []
            \<and> arrays w1 (subscriptions (gens w1 (ngens w))) = [])
     \<and> (getObservables ps = ob \<longrightarrow>
          state (step (Render ps triggerProps getObservables) init_world)
            = \<lparr>isLoading = False, data = Some 4, error = None\<rparr>
          \<and> heap (step (Render ps triggerProps getObservables) init_world) 4 = []
          \<and> subscribe_log (step (Render ps triggerProps getObservables) init_world) = [])
     \<and> state (step (RenderComponent resetOn ob) init_world)
            = \<lparr>isLoading = False, data = Some 2, error = None\<rparr>
     \<and> heap (step (RenderComponent resetOn ob) init_world) 2 = []
     \<and> subscribe_log (step (RenderComponent resetOn ob) init_world) = []"
proof -
  have 1: "\<exists>w1. effect (entries ob) w = Inr (None, w1)
            \<and> state w1
                = \<lparr>isLoading = False, data = Some (Suc (Suc (next_ref w))), error = None\<rparr>
            \<and> heap w1 (Suc (Suc (next_ref w))) = []
            \<and> subscribe_log w1 = subscribe_log w
            \<and> unsubscribed w1 = unsubscribed w
            \<and> ngens w1 = Suc (ngens w)
            \<and> attached (gens w1 (ngens w)) = []
            \<and> arrays w1 (subscriptions (gens w1 (ngens w))) = []"
    by (simp add: assms effect_empty Ready_def)
  have 2: "state (step (Render ps triggerProps getObservables) init_world)
            = \<lparr>isLoading = False, data = Some 4, error = None\<rparr>
          \<and> heap (step (Render ps triggerProps getObservables) init_world) 4 = []
          \<and> subscribe_log (step (Render ps triggerProps getObservables) init_world) = []"
    if "getObservables ps = ob"
    using that assms
    by (simp add: init_world_def useObservables_def new_array_def Let_def commit_effect_def
        effect_empty Ready_def eval_nat_numeral)
  have 3: "state (step (RenderComponent resetOn ob) init_world)
            = \<lparr>isLoading = False, data = Some 2, error = None\<rparr>
     \<and> heap (step (RenderComponent resetOn ob) init_world) 2 = []
     \<and> subscribe_log (step (RenderComponent resetOn ob) init_world) = []"
    using assms
    by (simp add: init_world_def WithObservables_def Let_def commit_effect_def
        effect_empty Ready_def Loading_def eval_nat_numeral)
  show ?thesis using 1 2 3 by blast
qed

theorem empty_observables_ready_witness:
  "entries (noObservables []) = []
   \<and> state (step (Render [] None noObservables) init_world)
       = \<lparr>isLoading = False, data = Some 4, error = None\<rparr>
   \<and> heap (step (Render [] None noObservables) init_world) 4 = []
   \<and> subscribe_log (step (Render [] None noObservables) init_world) = []
   \<and> state (step (RenderComponent \<lparr>array_ref = 0, elems = []\<rparr> (noObservables [])) init_world)
       = \<lparr>isLoading = False, data = Some 2, error = None\<rparr>"
proof -
  have e: "entries (noObservables []) = []" by (simp add: noObservables_def)
  show ?thesis
    using e empty_observables_ready [OF e, where getObservables = noObservables and ps = "[]"
        and triggerProps = None and resetOn = "\<lparr>array_ref = 0, elems = []\<rparr>"]
    by simp
qed

section \<open>Loading, Ready and Errored\<close>














text \<open>
  Under a key other than \<open>__proto__\<close>: when every key of a live generation has emitted, the
  state is Ready with some data object \<open>d\<close>, and an emission \<open>v\<close> under \<open>key\<close> publishes a
  state that is again Ready, with no error, whose data is a new object (its reference was
  never used: it is neither \<open>d\<close> nor the accumulator \<open>values\<close>) that has the keys of \<open>d\<close> in
  the same order, \<open>v\<close> under \<open>key\<close> and under every other key what \<open>d\<close> has; \<open>d\<close> itself is not
  changed.
\<close>

lemma ready_emission_updates_one_key:
  assumes "wf_trace evs" and "plain_trace evs" and "w = run evs init_world" and g: "g < ngens w"
    and at: "k \<in> set (attached (gens w g))" and live: "isSubscribed (gens w g)"
    and all: "set (map fst (emitted w g)) = set (keys (gens w g))"
  shows "\<exists>d. state w = \<lparr>isLoading = False, data = Some d, error = None\<rparr>
     \<and> step (Emit g k (Next v)) w = next_handler g k v w
     \<and> state (next_handler g k v w)
         = \<lparr>isLoading = False, data = Some (next_ref w), error = None\<rparr>
     \<and> d < next_ref w \<and> values (gens w g) < next_ref w
     \<and> values (gens (next_handler g k v w) g) = values (gens w g)
     \<and> heap (next_handler g k v w) (next_ref w) = AList.update k v (heap w d)
     \<and> map_of (heap (next_handler g k v w) (next_ref w)) = (map_of (heap w d))(k \<mapsto> v)
     \<and> map fst (heap (next_handler g k v w) (next_ref w)) = map fst (heap w d)
     \<and> heap (next_handler g k v w) d = heap w d"
proof -
  have i: "einv w" using inv_run [OF assms(1,2)] assms(3) by (simp add: inv_def)
  have ok: "gen_ok w g" using i g by (simp add: einv_def gens_ok_def)
  have so: "state_ok w" using i by (simp add: einv_def)
  have kk: "k \<in> set (keys (gens w g))"
    using einv_gen_facts(1) [OF i g] at by blast
  note np = gen_ok_not_proto [OF ok kk]
  have last: "ngens w - 1 = g"
    using i g live kk by (cases "g = ngens w - 1") (auto simp: einv_def settled_def)
  have full: "valueCount (gens w g) = keyCount (gens w g)"
    using all_emitted_iff [OF ok] all by simp
  have own: "hasOwn (emitted w g) k" using kk all by (simp add: hasOwn_def)
  obtain d where d: "state w = Ready d" "heap w d = emitted w g"
    using so last g live kk full unfolding state_ok_def by fastforce
  have dd: "d < next_ref w" "values (gens w g) \<noteq> d"
    using so d(1) g unfolding state_ok_def Ready_def by auto
  have vr: "values (gens w g) < next_ref w" using ok by (simp add: gen_ok_def)
  have pub: "(if hasOwn (emitted w g) k then valueCount (gens w g)
               else Suc (valueCount (gens w g))) = keyCount (gens w g)"
    using own full by simp
  note p = next_handler_publishes [OF live np pub, of v]
  have h1: "heap (next_handler g k v w) (next_ref w) = AList.update k v (heap w d)"
    by (simp add: p(3) d(2))
  have h2: "heap (next_handler g k v w) d = heap w d"
    using dd by (simp add: p(3))
  have h3: "map fst (AList.update k v (heap w d)) = map fst (heap w d)"
    using own by (simp add: AList.update_keys d(2) hasOwn_def)
  have "state w = \<lparr>isLoading = False, data = Some d, error = None\<rparr>
     \<and> step (Emit g k (Next v)) w = next_handler g k v w
     \<and> state (next_handler g k v w)
         = \<lparr>isLoading = False, data = Some (next_ref w), error = None\<rparr>
     \<and> d < next_ref w \<and> values (gens w g) < next_ref w
     \<and> values (gens (next_handler g k v w) g) = values (gens w g)
     \<and> heap (next_handler g k v w) (next_ref w) = AList.update k v (heap w d)
     \<and> map_of (heap (next_handler g k v w) (next_ref w)) = (map_of (heap w d))(k \<mapsto> v)
     \<and> map fst (heap (next_handler g k v w) (next_ref w)) = map fst (heap w d)
     \<and> heap (next_handler g k v w) d = heap w d"
    using d(1) g at p(1) dd(1) vr h1 h2 h3
    by (simp add: Ready_def gens_next_handler_fields AList.update_conv')
  then show ?thesis by blast
qed

text \<open>
  C9. The handler takes \<open>!hasOwn(values, key)\<close> for a first emission and \<open>values[key] = value\<close>
  for making \<open>key\<close> an own property. Neither holds for the key \<open>__proto__\<close>, so what C9
  says is not what the code does for an object with that key. With the keys \<open>__proto__\<close>
  and \<open>b\<close>: the first emission under \<open>__proto__\<close> is counted and the state is Loading; the
  second is counted again, \<open>valueCount\<close> reaches \<open>keyCount\<close>, and the state is Ready with
  data \<open>{}\<close> although \<open>b\<close> has not emitted; then an emission \<open>x\<close> under \<open>b\<close> brings the count
  to 3, nothing is published, and the data stays \<open>{}\<close>: \<open>data.b\<close> never takes the emitted
  value. Only \<open>values\<close> has it.
\<close>

theorem proto_key_emission_not_published:
  "keys (gens protoFirst 0) = [''__proto__'', ''b'']
   \<and> state protoFirst = \<lparr>isLoading = True, data = None, error = None\<rparr>
   \<and> valueCount (gens protoFirst 0) = 1 \<and> emitted protoFirst 0 = []
   \<and> state protoTwice = \<lparr>isLoading = False, data = Some 4, error = None\<rparr>
   \<and> valueCount (gens protoTwice 0) = 2 \<and> keyCount (gens protoTwice 0) = 2
   \<and> heap protoTwice 4 = [] \<and> emitted protoTwice 0 = []
   \<and> isSubscribed (gens protoTwice 0) \<and> attached (gens protoTwice 0) = [''__proto__'', ''b'']
   \<and> state (step (Emit 0 ''b'' (Next (Str ''x''))) protoTwice)
       = \<lparr>isLoading = False, data = Some 4, error = None\<rparr>
   \<and> heap (step (Emit 0 ''b'' (Next (Str ''x''))) protoTwice) 4 = []
   \<and> next_ref (step (Emit 0 ''b'' (Next (Str ''x''))) protoTwice) = next_ref protoTwice
   \<and> emitted (step (Emit 0 ''b'' (Next (Str ''x''))) protoTwice) 0 = [(''b'', Str ''x'')]
   \<and> valueCount (gens (step (Emit 0 ''b'' (Next (Str ''x''))) protoTwice) 0) = 3"
  by code_simp

section \<open>When the hook resubscribes\<close>

text \<open>
  C7. The effect depends on \<open>[observablesObject]\<close>, the value of the \<open>useMemo\<close>, not on the
  trigger props: when the watched list changes and \<open>getObservables\<close> returns the object it
  returned before, the hook stores the new list and resubscribes to nothing. With
  \<open>triggerProps\<close> \<open>['id']\<close> and \<open>id\<close> going from 1 to 2 the watched lists differ, yet no
  \<open>Unsubscribe\<close> is called, \<open>subscribe\<close> is not called again and the first generation stays
  the live one; likewise for \<open>WithObservables\<close> when \<open>resetOn\<close> changes and the \<open>observables\<close>
  prop is the same object. With a factory that makes a new object
  (\<open>itemFor\<close>) the same change of \<open>id\<close> calls the \<open>Unsubscribe\<close> of the first generation and
  subscribes again.
\<close>

theorem changed_trigger_same_object_not_resubscribed:
  "watched constItem1 = [Num 1]
   \<and> watched (step (Render [(''id'', Num 2)] (Some [''id'']) constItem) constItem1) = [Num 2]
   \<and> \<not> identicalArrays [Num 1] [Num 2]
   \<and> subscribe_log constItem1 = [(0, ''item'')]
   \<and> subscribe_log (step (Render [(''id'', Num 2)] (Some [''id'']) constItem) constItem1)
       = [(0, ''item'')]
   \<and> unsubscribed (step (Render [(''id'', Num 2)] (Some [''id'']) constItem) constItem1) = []
   \<and> ngens (step (Render [(''id'', Num 2)] (Some [''id'']) constItem) constItem1) = 1
   \<and> isSubscribed (gens (step (Render [(''id'', Num 2)] (Some [''id'']) constItem) constItem1) 0)
   \<and> subscribe_log (run [RenderComponent \<lparr>array_ref = 90, elems = [Num 1]\<rparr> (constItem []),
         RenderComponent \<lparr>array_ref = 91, elems = [Num 2]\<rparr> (constItem [])] init_world)
       = [(0, ''item'')]
   \<and> unsubscribed (run [RenderComponent \<lparr>array_ref = 90, elems = [Num 1]\<rparr> (constItem []),
         RenderComponent \<lparr>array_ref = 91, elems = [Num 2]\<rparr> (constItem [])] init_world)
       = []
   \<and> watched item1 = [Num 1]
   \<and> watched (step (Render [(''id'', Num 2)] (Some [''id'']) itemFor) item1) = [Num 2]
   \<and> unsubscribed (step (Render [(''id'', Num 2)] (Some [''id'']) itemFor) item1)
       = [(0, ''item'')]
   \<and> subscribe_log (step (Render [(''id'', Num 2)] (Some [''id'']) itemFor) item1)
       = [(0, ''item''), (1, ''item'')]"
  by code_simp

end
